theory Spec2Isabelle
  imports Main
begin

section \<open>Data model (types.ts)\<close>

text \<open>
  The enums \<^verbatim>\<open>NodeType\<close> and \<^verbatim>\<open>NodeStatus\<close> and the interfaces
  \<^verbatim>\<open>NodeData\<close> and \<^verbatim>\<open>Connection\<close>. An optional field \<^verbatim>\<open>f?: T\<close> is a
  \<open>T option\<close> (\<open>None\<close> is \<^verbatim>\<open>undefined\<close>). The layout fields \<^verbatim>\<open>x\<close>, \<^verbatim>\<open>y\<close> and
  \<^verbatim>\<open>title\<close> are neither read nor written by the execution engine and are left out.
  A string is a list of code units below 256. The field \<^verbatim>\<open>id\<close> is \<open>id_n\<close> on a
  node and \<open>id_c\<close> on a connection, and \<^verbatim>\<open>type\<close> is \<open>type_n\<close>.
\<close>

datatype NodeType =
  INPUT | AI_GENERATOR | AI_OPTIMIZER | AI_FACT_CHECK | AI_CODER | OUTPUT_PREVIEW
  | IMAGE_NODE | AI_BRAINSTORM

datatype NodeStatus = IDLE | RUNNING | COMPLETED | ERROR

record NodeData =
  id_n :: string
  type_n :: NodeType
  content :: string
  userPrompt :: "string option"
  systemInstruction :: "string option"
  model :: "string option"
  customTemplate :: "string option"
  imageUrls :: "string list option"
  status :: NodeStatus
  errorMessage :: "string option"

record Connection =
  id_c :: string
  sourceId :: string
  targetId :: string

section \<open>JavaScript string helpers\<close>

definition nl :: string where
  "nl = [CHR 0x0A]"

text \<open>\<^verbatim>\<open>xs.join(sep)\<close> on an array of strings.\<close>

fun join :: "string \<Rightarrow> string list \<Rightarrow> string" where
  "join sep [] = []"
| "join sep [x] = x"
| "join sep (x # y # ys) = x @ sep @ join sep (y # ys)"

text \<open>\<^verbatim>\<open>s || d\<close> on an optional string: \<^verbatim>\<open>undefined\<close> and the empty string are falsy.\<close>

definition orElse :: "string option \<Rightarrow> string \<Rightarrow> string" where
  "orElse s d = (case s of None \<Rightarrow> d | Some v \<Rightarrow> if v = [] then d else v)"

definition truthy :: "string option \<Rightarrow> bool" where
  "truthy s = (case s of None \<Rightarrow> False | Some v \<Rightarrow> v \<noteq> [])"

text \<open>
  The white space and line terminators that \<^verbatim>\<open>String.prototype.trim\<close> strips,
  among the code units below 256: TAB, LF, VT, FF, CR, SP and NBSP.
\<close>

definition isWhiteSpace :: "char \<Rightarrow> bool" where
  "isWhiteSpace c = (c \<in> set [CHR 0x09, CHR 0x0A, CHR 0x0B, CHR 0x0C, CHR 0x0D, CHR 0x20, CHR 0xA0])"

definition trimEnd :: "string \<Rightarrow> string" where
  "trimEnd s = rev (dropWhile isWhiteSpace (rev s))"

definition trim :: "string \<Rightarrow> string" where
  "trim s = trimEnd (dropWhile isWhiteSpace s)"

section \<open>The generation capability (services/geminiService.ts)\<close>

text \<open>
  \<^verbatim>\<open>generateText\<close> builds the combined system instruction from a template literal
  and trims it, calls the provider and returns \<^verbatim>\<open>response.text || ""\<close>; a provider
  error is rethrown. The provider \<^verbatim>\<open>ai.models.generateContent\<close> is a parameter: given
  the number of calls made before this one in the run, the model name, the contents and
  the system instruction, it either fails with an error whose \<^verbatim>\<open>message\<close> may be
  absent (\<open>Inl\<close>) or answers with a response whose \<^verbatim>\<open>text\<close> may be absent (\<open>Inr\<close>).
  The constant temperature is not modelled.
\<close>

type_synonym provider = "nat \<Rightarrow> string \<Rightarrow> string \<Rightarrow> string \<Rightarrow> string option + string option"

definition combinedSystemInstruction :: "string option \<Rightarrow> string option \<Rightarrow> string" where
  "combinedSystemInstruction instruction globalContext =
     trim (nl
       @ (case globalContext of
            None \<Rightarrow> []
          | Some g \<Rightarrow> if g = [] then []
                      else ''### GLOBAL CONTEXT / COMPANY VOICE:'' @ nl @ g @ nl @ nl)
       @ nl
       @ ''### ROLE INSTRUCTION:'' @ nl
       @ orElse instruction ''You are a helpful AI assistant.'' @ nl
       @ ''  '')"

definition generateText ::
  "provider \<Rightarrow> nat \<Rightarrow> string \<Rightarrow> string \<Rightarrow> string option \<Rightarrow> string option
     \<Rightarrow> string option + string" where
  "generateText generateContent k modelName prompt instruction globalContext =
     (case generateContent k modelName prompt
             (combinedSystemInstruction instruction globalContext) of
        Inl error \<Rightarrow> Inl error
      | Inr text \<Rightarrow> Inr (orElse text []))"

section \<open>Graph queries\<close>

text \<open>
  \<^verbatim>\<open>getDescendantNodeIds\<close>: the \<^verbatim>\<open>Set\<close> of descendants is a list in insertion
  order, the stack an array whose last element \<^verbatim>\<open>pop\<close> removes and after which
  \<^verbatim>\<open>push\<close> appends. \<open>visit\<close> is the body of the inner \<^verbatim>\<open>for\<close> loop.
\<close>

fun visit :: "Connection \<Rightarrow> string list \<times> string list \<Rightarrow> string list \<times> string list" where
  "visit conn (descendants, stack) =
     (if targetId conn \<notin> set descendants
      then (descendants @ [targetId conn], stack @ [targetId conn])
      else (descendants, stack))"

function descendantsLoop ::
  "Connection list \<Rightarrow> string list \<Rightarrow> string list \<Rightarrow> string list" where
  "descendantsLoop connections stack descendants =
     (if stack = [] then descendants
      else
        let current = last stack;
            outgoing = filter (\<lambda>c. sourceId c = current) connections;
            (descendants', stack') = fold visit outgoing (descendants, butlast stack)
        in descendantsLoop connections stack' descendants')"
  by pat_completeness auto

lemma visit_measure:
  assumes "finite T" and "targetId c \<in> T" and "visit c (d, s) = (d', s')"
  shows "2 * card (T - set d') + length s' \<le> 2 * card (T - set d) + length s"
proof (cases "targetId c \<in> set d")
  case True
  with assms show ?thesis by simp
next
  case False
  with assms have d': "d' = d @ [targetId c]" and s': "s' = s @ [targetId c]"
    by auto
  have "targetId c \<in> T - set d"
    using assms(2) False by simp
  moreover have "T - set d' = (T - set d) - {targetId c}"
    using d' by auto
  ultimately have "card (T - set d') < card (T - set d)"
    using assms(1) by (metis card_Diff1_less finite_Diff)
  with s' show ?thesis by simp
qed

lemma fold_visit_measure:
  assumes "finite T"
  shows "targetId ` set cs \<subseteq> T \<Longrightarrow> fold visit cs (d, s) = (d', s') \<Longrightarrow>
    2 * card (T - set d') + length s' \<le> 2 * card (T - set d) + length s"
proof (induction cs arbitrary: d s)
  case Nil
  then show ?case by simp
next
  case (Cons c cs)
  obtain d1 s1 where v: "visit c (d, s) = (d1, s1)"
    by (cases "visit c (d, s)")
  from Cons.prems have "targetId c \<in> T" by simp
  from visit_measure [OF assms this v]
  have "2 * card (T - set d1) + length s1 \<le> 2 * card (T - set d) + length s" .
  moreover have "2 * card (T - set d') + length s' \<le> 2 * card (T - set d1) + length s1"
    using Cons.IH [of d1 s1] Cons.prems v by simp
  ultimately show ?case by linarith
qed

termination descendantsLoop
proof (relation "measure (\<lambda>(connections, stack, descendants).
    2 * card (targetId ` set connections - set descendants) + length stack)")
  show "wf (measure (\<lambda>(connections, stack, descendants).
    2 * card (targetId ` set connections - set descendants) + length stack))"
    by simp
next
  fix connections :: "Connection list" and stack descendants :: "string list"
    and current outgoing x descendants' stack'
  assume ne: "stack \<noteq> []"
    and "current = last stack"
    and out: "outgoing = filter (\<lambda>c. sourceId c = current) connections"
    and x: "x = fold visit outgoing (descendants, butlast stack)"
    and "(descendants', stack') = x"
  then have f: "fold visit outgoing (descendants, butlast stack) = (descendants', stack')"
    by simp
  have "targetId ` set outgoing \<subseteq> targetId ` set connections"
    using out by auto
  from fold_visit_measure [OF _ this f]
  have "2 * card (targetId ` set connections - set descendants') + length stack'
      \<le> 2 * card (targetId ` set connections - set descendants) + length (butlast stack)"
    by simp
  moreover have "length (butlast stack) < length stack"
    using ne by simp
  ultimately show "((connections, stack', descendants'), (connections, stack, descendants))
    \<in> measure (\<lambda>(connections, stack, descendants).
        2 * card (targetId ` set connections - set descendants) + length stack)"
    by simp
qed

definition getDescendantNodeIds :: "Connection list \<Rightarrow> string \<Rightarrow> string list" where
  "getDescendantNodeIds connections startNodeId = descendantsLoop connections [startNodeId] []"

section \<open>The execution engine\<close>

text \<open>
  \<^verbatim>\<open>updateLocalAndState(id, updates)\<close> maps the partial update over every node
  whose id is \<^verbatim>\<open>id\<close>. The local working copy \<^verbatim>\<open>currentNodes\<close> and the published
  workspace copy receive the same updates; the model keeps the local copy, from which
  the scheduler reads.
\<close>

definition updateLocalAndState ::
  "string \<Rightarrow> (NodeData \<Rightarrow> NodeData) \<Rightarrow> NodeData list \<Rightarrow> NodeData list" where
  "updateLocalAndState i updates currentNodes =
     map (\<lambda>n. if id_n n = i then updates n else n) currentNodes"

subsection \<open>Step 1: instant nodes\<close>

definition instantNodes :: "NodeData list \<Rightarrow> NodeData list" where
  "instantNodes currentNodes =
     filter (\<lambda>n. (type_n n = INPUT \<or> type_n n = IMAGE_NODE) \<and> status n = IDLE) currentNodes"

definition instantContent :: "NodeData \<Rightarrow> string" where
  "instantContent node =
     (if type_n node = INPUT then orElse (userPrompt node) []
      else orElse (map_option (join nl) (imageUrls node)) [])"

definition resolveInstant :: "NodeData list \<Rightarrow> NodeData list" where
  "resolveInstant currentNodes =
     fold (\<lambda>node cur.
             updateLocalAndState (id_n node)
               (\<lambda>n. n\<lparr>status := COMPLETED, content := instantContent node\<rparr>) cur)
          (instantNodes currentNodes) currentNodes"

subsection \<open>Step 2: the rounds\<close>

text \<open>The predicate of the \<^verbatim>\<open>nodesToRun\<close> filter.\<close>

definition sourceReady :: "NodeData list \<Rightarrow> Connection \<Rightarrow> bool" where
  "sourceReady currentNodes edge =
     (case find (\<lambda>n. id_n n = sourceId edge) currentNodes of
        None \<Rightarrow> False
      | Some sourceNode \<Rightarrow> status sourceNode = COMPLETED)"

definition ready :: "Connection list \<Rightarrow> NodeData list \<Rightarrow> NodeData \<Rightarrow> bool" where
  "ready connections currentNodes node =
     (if status node \<noteq> IDLE then False
      else if type_n node = AI_BRAINSTORM then True
      else
        let incomingEdges = filter (\<lambda>c. targetId c = id_n node) connections
        in if incomingEdges = [] \<and> type_n node \<noteq> INPUT \<and> type_n node \<noteq> IMAGE_NODE
           then False
           else list_all (sourceReady currentNodes) incomingEdges)"

definition nodesToRun :: "Connection list \<Rightarrow> NodeData list \<Rightarrow> NodeData list" where
  "nodesToRun connections currentNodes = filter (ready connections currentNodes) currentNodes"

text \<open>
  The loop over the incoming edges that fills \<^verbatim>\<open>textInputs\<close> and
  \<^verbatim>\<open>imageInputs\<close>; \<open>collect\<close> is its body.
\<close>

definition collect ::
  "NodeData list \<Rightarrow> Connection \<Rightarrow> string list \<times> string list \<Rightarrow> string list \<times> string list" where
  "collect currentNodes edge acc =
     (case acc of (textInputs, imageInputs) \<Rightarrow>
        (case find (\<lambda>n. id_n n = sourceId edge) currentNodes of
           None \<Rightarrow> (textInputs, imageInputs)
         | Some source \<Rightarrow>
             if type_n source = IMAGE_NODE
             then (case imageUrls source of
                     None \<Rightarrow> (textInputs, imageInputs)
                   | Some urls \<Rightarrow> (textInputs, imageInputs @ urls))
             else (textInputs @ [content source], imageInputs)))"

definition inputs :: "Connection list \<Rightarrow> NodeData list \<Rightarrow> NodeData \<Rightarrow> string list \<times> string list" where
  "inputs connections currentNodes node =
     fold (collect currentNodes) (filter (\<lambda>c. targetId c = id_n node) connections) ([], [])"

text \<open>The value of \<^verbatim>\<open>prompt\<close> at the call of \<^verbatim>\<open>generateText\<close>.\<close>

definition prompt :: "Connection list \<Rightarrow> NodeData list \<Rightarrow> NodeData \<Rightarrow> string" where
  "prompt connections currentNodes node =
     (case inputs connections currentNodes node of (textInputs, imageInputs) \<Rightarrow>
        let inputTextCombined = join (nl @ nl) textInputs
        in if type_n node = AI_BRAINSTORM
           then ''Generate a list of relevant topics based on the global context provided.''
           else if type_n node = AI_CODER \<and> truthy (customTemplate node)
           then nl @ ''CONTENT TO INSERT:'' @ nl
             @ inputTextCombined @ nl
             @ nl
             @ ''HTML TEMPLATE:'' @ nl
             @ orElse (customTemplate node) [] @ nl
             @ nl
             @ ''INSTRUCTIONS:'' @ nl
             @ ''Insert the content into the HTML template. Do not change the layout structure, only add the text.'' @ nl
             @ (if imageInputs \<noteq> []
                then ''Also, insert these images where appropriate in the HTML: ''
                  @ join '', '' imageInputs
                else []) @ nl
             @ replicate 28 (CHR '' '')
           else if imageInputs \<noteq> []
           then inputTextCombined @ nl @ nl @ ''Available Image URLs: '' @ join '', '' imageInputs
           else inputTextCombined)"

text \<open>
  The body of the loop over \<^verbatim>\<open>nodesToRun\<close>, on the working copy and the number of
  provider calls made so far. \<open>node\<close> is the element of the filtered snapshot.
\<close>

definition runNode ::
  "provider \<Rightarrow> Connection list \<Rightarrow> string \<Rightarrow> NodeData \<Rightarrow> NodeData list \<times> nat
     \<Rightarrow> NodeData list \<times> nat" where
  "runNode generateContent connections globalContext node s =
     (case s of (currentNodes, k) \<Rightarrow>
        let running = updateLocalAndState (id_n node)
                        (\<lambda>n. n\<lparr>status := RUNNING, errorMessage := None\<rparr>) currentNodes
        in if type_n node = OUTPUT_PREVIEW
           then (updateLocalAndState (id_n node)
                   (\<lambda>n. n\<lparr>status := COMPLETED,
                            content := join (nl @ nl) (fst (inputs connections running node))\<rparr>)
                   running, k)
           else (case generateText generateContent k (orElse (model node) ''gemini-2.5-flash'')
                        (prompt connections running node) (systemInstruction node)
                        (Some globalContext) of
                   Inr result \<Rightarrow>
                     (updateLocalAndState (id_n node)
                        (\<lambda>n. n\<lparr>status := COMPLETED, content := result\<rparr>) running, Suc k)
                 | Inl e \<Rightarrow>
                     (updateLocalAndState (id_n node)
                        (\<lambda>n. n\<lparr>status := ERROR,
                                 errorMessage := Some (orElse e ''Unknown error'')\<rparr>)
                        running, Suc k)))"

text \<open>One pass of the \<^verbatim>\<open>while\<close> body: filter, then run every selected node.\<close>

definition runRound ::
  "provider \<Rightarrow> Connection list \<Rightarrow> string \<Rightarrow> NodeData list \<times> nat \<Rightarrow> NodeData list \<times> nat" where
  "runRound generateContent connections globalContext s =
     fold (runNode generateContent connections globalContext)
          (nodesToRun connections (fst s)) s"

subsection \<open>The loop over the rounds\<close>

text \<open>
  The \<^verbatim>\<open>while\<close> loop runs rounds until a round selects no node. Its termination
  rests on the number of Idle nodes: every update of a round is one of the two settling
  updates below, and the first selected node is Idle before its update and not after.
\<close>

definition settled :: "(NodeData \<Rightarrow> NodeData) \<Rightarrow> bool" where
  "settled f \<longleftrightarrow>
     (\<exists>c. f = (\<lambda>n. n\<lparr>content := c, status := COMPLETED, errorMessage := None\<rparr>))
   \<or> (\<exists>m. f = (\<lambda>n. n\<lparr>status := ERROR, errorMessage := Some m\<rparr>))"

definition idleCount :: "NodeData list \<Rightarrow> nat" where
  "idleCount currentNodes = length (filter (\<lambda>n. status n = IDLE) currentNodes)"

lemma updateLocalAndState_twice:
  assumes "\<And>n. id_n (f n) = id_n n"
  shows "updateLocalAndState i g (updateLocalAndState i f cur) = updateLocalAndState i (g \<circ> f) cur"
  using assms by (simp add: updateLocalAndState_def)

lemma runNode_settled:
  "\<exists>f. settled f \<and>
     fst (runNode p conns ctx node (cur, k)) = updateLocalAndState (id_n node) f cur"
proof -
  let ?r = "\<lambda>n. n\<lparr>status := RUNNING, errorMessage := None\<rparr>"
  have tw: "updateLocalAndState (id_n node) g (updateLocalAndState (id_n node) ?r cur)
      = updateLocalAndState (id_n node) (g \<circ> ?r) cur" for g
    by (rule updateLocalAndState_twice) simp
  have c: "settled ((\<lambda>n. n\<lparr>status := COMPLETED, content := c\<rparr>) \<circ> ?r)" for c
    unfolding settled_def by (rule disjI1, rule exI [of _ c]) (simp add: fun_eq_iff)
  have e: "settled ((\<lambda>n. n\<lparr>status := ERROR, errorMessage := Some m\<rparr>) \<circ> ?r)" for m
    unfolding settled_def by (rule disjI2, rule exI [of _ m]) (simp add: fun_eq_iff)
  show ?thesis
    unfolding runNode_def using c e
    by (auto simp: tw Let_def split: sum.splits)
qed

lemma settled_status: "settled f \<Longrightarrow> status (f n) = COMPLETED \<or> status (f n) = ERROR"
  by (auto simp: settled_def)

lemma settled_id: "settled f \<Longrightarrow> id_n (f n) = id_n n"
  by (auto simp: settled_def)

lemma settled_type: "settled f \<Longrightarrow> type_n (f n) = type_n n"
  by (auto simp: settled_def)

lemma settled_not_idle: "settled f \<Longrightarrow> status (f n) \<noteq> IDLE"
  by (auto simp: settled_def)

lemma idleCount_update_le:
  "settled f \<Longrightarrow> idleCount (updateLocalAndState i f cur) \<le> idleCount cur"
  by (induction cur) (auto simp: idleCount_def updateLocalAndState_def settled_not_idle)

lemma idleCount_update_less:
  "settled f \<Longrightarrow> n \<in> set cur \<Longrightarrow> id_n n = i \<Longrightarrow> status n = IDLE \<Longrightarrow>
     idleCount (updateLocalAndState i f cur) < idleCount cur"
proof (induction cur)
  case Nil
  then show ?case by simp
next
  case (Cons a cur)
  have le: "idleCount (updateLocalAndState i f cur) \<le> idleCount cur"
    using Cons.prems(1) by (rule idleCount_update_le)
  show ?case
  proof (cases "a = n")
    case True
    with Cons.prems le show ?thesis
      by (auto simp: idleCount_def updateLocalAndState_def settled_not_idle)
  next
    case False
    with Cons.prems have "n \<in> set cur" by simp
    from Cons.IH [OF Cons.prems(1) this Cons.prems(3,4)] Cons.prems(1)
    show ?thesis
      by (auto simp: idleCount_def updateLocalAndState_def settled_not_idle)
  qed
qed

lemma runNode_idleCount_le:
  "idleCount (fst (runNode p conns ctx node s)) \<le> idleCount (fst s)"
proof -
  obtain cur k where s: "s = (cur, k)" by (cases s)
  from runNode_settled [of p conns ctx node cur k] obtain f where
    "settled f" "fst (runNode p conns ctx node (cur, k)) = updateLocalAndState (id_n node) f cur"
    by blast
  with s show ?thesis by (simp add: idleCount_update_le)
qed

lemma runNode_idleCount_less:
  assumes "node \<in> set (fst s)" and "status node = IDLE"
  shows "idleCount (fst (runNode p conns ctx node s)) < idleCount (fst s)"
proof -
  obtain cur k where s: "s = (cur, k)" by (cases s)
  from runNode_settled [of p conns ctx node cur k] obtain f where
    "settled f" "fst (runNode p conns ctx node (cur, k)) = updateLocalAndState (id_n node) f cur"
    by blast
  with s assms show ?thesis by (simp add: idleCount_update_less)
qed

lemma fold_runNode_idleCount_le:
  "idleCount (fst (fold (runNode p conns ctx) ns s)) \<le> idleCount (fst s)"
proof (induction ns arbitrary: s)
  case Nil
  show ?case by simp
next
  case (Cons n ns)
  have "idleCount (fst (fold (runNode p conns ctx) ns (runNode p conns ctx n s)))
      \<le> idleCount (fst (runNode p conns ctx n s))"
    by (rule Cons.IH)
  also have "\<dots> \<le> idleCount (fst s)"
    by (rule runNode_idleCount_le)
  finally show ?case by simp
qed

lemma nodesToRun_idle: "n \<in> set (nodesToRun conns cur) \<Longrightarrow> n \<in> set cur \<and> status n = IDLE"
  by (auto simp: nodesToRun_def ready_def split: if_splits)

lemma runRound_idleCount_less:
  assumes "nodesToRun conns (fst s) \<noteq> []"
  shows "idleCount (fst (runRound p conns ctx s)) < idleCount (fst s)"
proof -
  from assms obtain n ns where ns: "nodesToRun conns (fst s) = n # ns"
    by (cases "nodesToRun conns (fst s)") auto
  then have "n \<in> set (nodesToRun conns (fst s))" by simp
  then have n: "n \<in> set (fst s)" "status n = IDLE"
    using nodesToRun_idle by blast+
  have "idleCount (fst (fold (runNode p conns ctx) ns (runNode p conns ctx n s)))
      \<le> idleCount (fst (runNode p conns ctx n s))"
    by (rule fold_runNode_idleCount_le)
  also have "\<dots> < idleCount (fst s)"
    using n by (rule runNode_idleCount_less)
  finally show ?thesis
    by (simp add: runRound_def ns)
qed

function processRounds ::
  "provider \<Rightarrow> Connection list \<Rightarrow> string \<Rightarrow> NodeData list \<times> nat \<Rightarrow> NodeData list \<times> nat" where
  "processRounds generateContent connections globalContext s =
     (if nodesToRun connections (fst s) = [] then s
      else processRounds generateContent connections globalContext
             (runRound generateContent connections globalContext s))"
  by pat_completeness auto

termination processRounds
  by (relation "measure (\<lambda>(generateContent, connections, globalContext, s). idleCount (fst s))")
    (simp_all add: runRound_idleCount_less)

text \<open>The equations of the two loops are unfolded by hand, one step at a time.\<close>

declare processRounds.simps [simp del]

declare descendantsLoop.simps [simp del]

definition processWorkflowQueue ::
  "provider \<Rightarrow> Connection list \<Rightarrow> string \<Rightarrow> NodeData list \<Rightarrow> NodeData list" where
  "processWorkflowQueue generateContent connections globalContext initialNodesState =
     fst (processRounds generateContent connections globalContext
            (resolveInstant initialNodesState, 0))"

subsection \<open>The run button and the retry button\<close>

text \<open>
  \<^verbatim>\<open>executeWorkflow\<close> resets every node and starts the queue; \<^verbatim>\<open>handleRetryNode\<close>
  does nothing while a run is executing, and otherwise resets the target and its
  descendants (\<open>updatedNodes\<close>) and starts the queue.
\<close>

definition resetNodes :: "NodeData list \<Rightarrow> NodeData list" where
  "resetNodes nodes = map (\<lambda>n. n\<lparr>status := IDLE, errorMessage := None\<rparr>) nodes"

definition executeWorkflow ::
  "provider \<Rightarrow> Connection list \<Rightarrow> string \<Rightarrow> NodeData list \<Rightarrow> NodeData list" where
  "executeWorkflow generateContent connections globalContext nodes =
     processWorkflowQueue generateContent connections globalContext (resetNodes nodes)"

definition updatedNodes :: "Connection list \<Rightarrow> string \<Rightarrow> NodeData list \<Rightarrow> NodeData list" where
  "updatedNodes connections nodeId nodes =
     (let descendants = getDescendantNodeIds connections nodeId;
          nodesToReset = nodeId # descendants
      in map (\<lambda>n. if id_n n \<in> set nodesToReset
                    then n\<lparr>status := IDLE, errorMessage := None\<rparr> else n) nodes)"

definition handleRetryNode ::
  "provider \<Rightarrow> Connection list \<Rightarrow> string \<Rightarrow> bool \<Rightarrow> string \<Rightarrow> NodeData list \<Rightarrow> NodeData list" where
  "handleRetryNode generateContent connections globalContext isExecuting nodeId nodes =
     (if isExecuting then nodes
      else processWorkflowQueue generateContent connections globalContext
             (updatedNodes connections nodeId nodes))"

section \<open>The notions of the specification\<close>

text \<open>
  The connections as a relation on ids; the descendants of the specification are its
  transitive closure.
\<close>

definition edgeRel :: "Connection list \<Rightarrow> (string \<times> string) set" where
  "edgeRel connections = (\<lambda>c. (sourceId c, targetId c)) ` set connections"

text \<open>
  The payload in the words of the specification: the upstream nodes are the sources of
  the incoming connections, in the order of the connection list; the contents of those
  that are not image nodes are joined with a blank line, and the image URLs of those
  that are image nodes follow in one trailing annotation when there are any.
\<close>

definition upstream :: "Connection list \<Rightarrow> NodeData list \<Rightarrow> NodeData \<Rightarrow> NodeData list" where
  "upstream connections currentNodes node =
     List.map_filter (\<lambda>e. find (\<lambda>m. id_n m = sourceId e) currentNodes)
       (filter (\<lambda>c. targetId c = id_n node) connections)"

definition imageRefs :: "NodeData list \<Rightarrow> string list" where
  "imageRefs ns =
     concat (map (\<lambda>s. case imageUrls s of None \<Rightarrow> [] | Some urls \<Rightarrow> urls)
                 (filter (\<lambda>s. type_n s = IMAGE_NODE) ns))"

definition payload :: "Connection list \<Rightarrow> NodeData list \<Rightarrow> NodeData \<Rightarrow> string" where
  "payload connections currentNodes node =
     join (nl @ nl)
       (map content (filter (\<lambda>s. type_n s \<noteq> IMAGE_NODE) (upstream connections currentNodes node)))
     @ (if imageRefs (upstream connections currentNodes node) = [] then []
        else nl @ nl @ ''Available Image URLs: ''
          @ join '', '' (imageRefs (upstream connections currentNodes node)))"

text \<open>
  The two sections in the words of the specification: the global-context section is
  there only when the global context is present (not \<^verbatim>\<open>undefined\<close> and not empty),
  and the role-instruction section holds the instruction when it is present and the
  generic assistant directive otherwise.
\<close>

definition globalContextSection :: "string option \<Rightarrow> string" where
  "globalContextSection globalContext =
     (case globalContext of
        None \<Rightarrow> []
      | Some g \<Rightarrow> if g = [] then []
                  else ''### GLOBAL CONTEXT / COMPANY VOICE:'' @ nl @ g @ nl @ nl @ nl)"

definition roleInstructionSection :: "string option \<Rightarrow> string" where
  "roleInstructionSection instruction =
     ''### ROLE INSTRUCTION:'' @ nl @ orElse instruction ''You are a helpful AI assistant.''"

text \<open>
  A cycle is a non-empty list of ids in which each id has a connection to the next and
  the last has a connection to the first.
\<close>

fun path :: "Connection list \<Rightarrow> string list \<Rightarrow> bool" where
  "path conns (x # y # zs) =
     ((\<exists>c\<in>set conns. sourceId c = x \<and> targetId c = y) \<and> path conns (y # zs))"
| "path conns zs = True"

definition isCycle :: "Connection list \<Rightarrow> string list \<Rightarrow> bool" where
  "isCycle conns cyc \<longleftrightarrow> cyc \<noteq> [] \<and> path conns (cyc @ [hd cyc])"

section \<open>Predicates on states\<close>

text \<open>
  \<open>settledAt A\<close>: every node with an id in \<open>A\<close> is Completed or Error.
  \<open>complete x\<close> is the update of the instant step for the instant node \<open>x\<close>.
  \<open>noIdleInstant\<close>: no \<open>INPUT\<close> or \<open>IMAGE_NODE\<close> node is Idle.
  \<open>errorOnlyIfError\<close>: \<open>errorMessage\<close> is set only on nodes in \<open>ERROR\<close>.
\<close>

definition settledAt :: "string set \<Rightarrow> NodeData list \<Rightarrow> bool" where
  "settledAt A cur \<longleftrightarrow> (\<forall>n\<in>set cur. id_n n \<in> A \<longrightarrow> status n = COMPLETED \<or> status n = ERROR)"

definition complete :: "NodeData \<Rightarrow> NodeData \<Rightarrow> NodeData" where
  "complete x n = n\<lparr>status := COMPLETED, content := instantContent x\<rparr>"

definition noIdleInstant :: "NodeData list \<Rightarrow> bool" where
  "noIdleInstant cur \<longleftrightarrow>
     (\<forall>n\<in>set cur. type_n n = INPUT \<or> type_n n = IMAGE_NODE \<longrightarrow> status n \<noteq> IDLE)"

definition errorOnlyIfError :: "NodeData list \<Rightarrow> bool" where
  "errorOnlyIfError nodes \<longleftrightarrow> (\<forall>n\<in>set nodes. errorMessage n \<noteq> None \<longrightarrow> status n = ERROR)"

text \<open>
  What a round may do to a node: nothing, or take it from Idle to Completed with some
  content and no error message, or from Idle to Error with an error message and the
  content it had.
\<close>

definition transition :: "NodeData \<Rightarrow> NodeData \<Rightarrow> bool" where
  "transition n n' \<longleftrightarrow>
     n' = n
   \<or> status n = IDLE
     \<and> (n' = n\<lparr>content := content n', status := COMPLETED, errorMessage := None\<rparr>
        \<or> errorMessage n' \<noteq> None
          \<and> n' = n\<lparr>status := ERROR, errorMessage := errorMessage n'\<rparr>)"

text \<open>
  A set of ids is stuck in a state when every Idle node with an id of the set is not a
  Brainstorm node and has an incoming connection from an id of the set under which no
  node is Completed. Nodes with such ids are never selected, so no update reaches them.
\<close>

definition stuck :: "Connection list \<Rightarrow> string set \<Rightarrow> NodeData list \<Rightarrow> bool" where
  "stuck conns S cur \<longleftrightarrow>
     (\<forall>n\<in>set cur. id_n n \<in> S \<and> status n = IDLE \<longrightarrow>
        type_n n \<noteq> AI_BRAINSTORM
      \<and> (\<exists>c\<in>set conns. targetId c = id_n n \<and> sourceId c \<in> S
            \<and> (\<forall>m\<in>set cur. id_n m = sourceId c \<longrightarrow> status m \<noteq> COMPLETED)))"



section \<open>Concrete nodes, connections and providers for the examples\<close>

definition mkNode :: "string \<Rightarrow> NodeType \<Rightarrow> string \<Rightarrow> NodeStatus \<Rightarrow> NodeData" where
  "mkNode i t c st =
     \<lparr>id_n = i, type_n = t, content = c, userPrompt = None, systemInstruction = None,
      model = None, customTemplate = None, imageUrls = None, status = st,
      errorMessage = None\<rparr>"

definition mkEdge :: "string \<Rightarrow> string \<Rightarrow> Connection" where
  "mkEdge a b = \<lparr>id_c = a @ b, sourceId = a, targetId = b\<rparr>"

definition echo :: provider where
  "echo k modelName contents directive = Inr (Some (''<'' @ contents @ ''>''))"

definition failing :: provider where
  "failing k modelName contents directive = Inl (Some ''quota'')"

definition pipeline :: "NodeData list" where
  "pipeline =
     [(mkNode ''in'' INPUT [] IDLE)\<lparr>userPrompt := Some ''Topic X''\<rparr>,
      mkNode ''writer'' AI_GENERATOR [] IDLE,
      mkNode ''coder'' AI_CODER [] IDLE,
      mkNode ''preview'' OUTPUT_PREVIEW [] IDLE]"

definition pipelineEdges :: "Connection list" where
  "pipelineEdges = [mkEdge ''in'' ''writer'', mkEdge ''writer'' ''coder'', mkEdge ''coder'' ''preview'']"

definition sources :: "NodeData list" where
  "sources =
     [(mkNode ''in'' INPUT [] IDLE)\<lparr>userPrompt := Some ''Topic X''\<rparr>,
      (mkNode ''img'' IMAGE_NODE [] IDLE)\<lparr>imageUrls := Some [''u1'', ''u2'']\<rparr>,
      mkNode ''writer'' AI_GENERATOR [] IDLE]"

definition fanIn :: "NodeData list" where
  "fanIn =
     [mkNode ''Q'' AI_GENERATOR ''second'' COMPLETED,
      (mkNode ''I'' IMAGE_NODE ''u1'' COMPLETED)\<lparr>imageUrls := Some [''u1'', ''u2'']\<rparr>,
      mkNode ''P'' INPUT ''first'' COMPLETED,
      mkNode ''N'' AI_OPTIMIZER [] IDLE]"

definition fanInEdges :: "Connection list" where
  "fanInEdges = [mkEdge ''P'' ''N'', mkEdge ''I'' ''N'', mkEdge ''Q'' ''N'']"

definition looped :: "NodeData list" where
  "looped =
     [(mkNode ''in'' INPUT [] IDLE)\<lparr>userPrompt := Some ''Topic X''\<rparr>,
      mkNode ''a'' AI_GENERATOR [] IDLE,
      mkNode ''b'' AI_OPTIMIZER [] IDLE,
      mkNode ''idea'' AI_BRAINSTORM [] IDLE]"

definition loopedEdges :: "Connection list" where
  "loopedEdges = [mkEdge ''in'' ''a'', mkEdge ''a'' ''b'', mkEdge ''b'' ''a'']"








definition ring :: "NodeData list" where
  "ring =
     [(mkNode ''in'' INPUT [] IDLE)\<lparr>userPrompt := Some ''Topic X''\<rparr>,
      mkNode ''a'' AI_GENERATOR [] IDLE,
      mkNode ''b'' AI_OPTIMIZER [] IDLE,
      (mkNode ''u'' INPUT [] IDLE)\<lparr>userPrompt := Some ''other''\<rparr>]"

definition ringEdges :: "Connection list" where
  "ringEdges = [mkEdge ''in'' ''a'']"

definition ringEdited :: "Connection list" where
  "ringEdited = [mkEdge ''in'' ''a'', mkEdge ''a'' ''b'', mkEdge ''b'' ''a'']"

section \<open>Lemmas\<close>

subsection \<open>The traversal computes the descendants\<close>

lemma fold_visit_sets:
  "fold visit cs (d, s) = (d', s') \<Longrightarrow>
     set d' = set d \<union> targetId ` set cs \<and> set s' = set s \<union> (targetId ` set cs - set d)"
proof (induction cs arbitrary: d s)
  case Nil
  then show ?case by simp
next
  case (Cons c cs)
  show ?case
  proof (cases "targetId c \<in> set d")
    case True
    with Cons.prems have "fold visit cs (d, s) = (d', s')" by simp
    from Cons.IH [OF this] True show ?thesis by auto
  next
    case False
    with Cons.prems have "fold visit cs (d @ [targetId c], s @ [targetId c]) = (d', s')" by simp
    from Cons.IH [OF this] False show ?thesis by auto
  qed
qed

lemma outgoing_image:
  "targetId ` set (filter (\<lambda>c. sourceId c = x) conns) = edgeRel conns `` {x}"
  by (auto simp: edgeRel_def image_iff)

lemma closed_trancl:
  assumes "\<forall>x\<in>insert t D. R `` {x} \<subseteq> D"
  shows "R\<^sup>+ `` {t} \<subseteq> D"
proof
  fix y assume "y \<in> R\<^sup>+ `` {t}"
  then have "(t, y) \<in> R\<^sup>+" by simp
  then show "y \<in> D"
    using assms by (induction rule: trancl_induct) auto
qed

lemma descendantsLoop_invariant:
  assumes "set descendants \<subseteq> (edgeRel conns)\<^sup>+ `` {t}"
    and "set stack \<subseteq> insert t (set descendants)"
    and "\<forall>x\<in>insert t (set descendants) - set stack. edgeRel conns `` {x} \<subseteq> set descendants"
  shows "set (descendantsLoop conns stack descendants) = (edgeRel conns)\<^sup>+ `` {t}"
  using assms
proof (induction conns stack descendants rule: descendantsLoop.induct)
  case (1 conns stack descendants)
  let ?R = "edgeRel conns"
  show ?case
  proof (cases "stack = []")
    case True
    with "1.prems"(3) have "?R\<^sup>+ `` {t} \<subseteq> set descendants"
      by (intro closed_trancl) simp
    moreover from True have "descendantsLoop conns stack descendants = descendants"
      by (subst descendantsLoop.simps) simp
    ultimately show ?thesis using "1.prems"(1) by simp
  next
    case False
    define current where "current = last stack"
    define outgoing where "outgoing = filter (\<lambda>c. sourceId c = current) conns"
    obtain d' s' where f: "fold visit outgoing (descendants, butlast stack) = (d', s')"
      by (cases "fold visit outgoing (descendants, butlast stack)")
    have "targetId ` set outgoing = ?R `` {current}"
      unfolding outgoing_def by (rule outgoing_image)
    with fold_visit_sets [OF f]
    have d': "set d' = set descendants \<union> ?R `` {current}"
      and s': "set s' = set (butlast stack) \<union> (?R `` {current} - set descendants)"
      by simp_all
    have st: "set stack = insert current (set (butlast stack))"
      using False unfolding current_def
      by (metis append_butlast_last_id list.simps(15) rotate1.simps(2) set_rotate1)
    have cur: "current \<in> insert t (set descendants)"
      using "1.prems"(2) st by auto
    then have reach: "(t, current) \<in> ?R\<^sup>*"
      using "1.prems"(1) by (auto intro: trancl_into_rtrancl)
    have a: "set d' \<subseteq> ?R\<^sup>+ `` {t}"
      using d' "1.prems"(1) reach by (auto intro: rtrancl_into_trancl1)
    have b: "set s' \<subseteq> insert t (set d')"
      using s' d' "1.prems"(2) st by auto
    have c: "\<forall>x\<in>insert t (set d') - set s'. ?R `` {x} \<subseteq> set d'"
    proof
      fix x assume x: "x \<in> insert t (set d') - set s'"
      show "?R `` {x} \<subseteq> set d'"
      proof (cases "x = current")
        case True
        then show ?thesis using d' by auto
      next
        case False
        with x s' d' st have "x \<in> insert t (set descendants) - set stack"
          by auto
        with "1.prems"(3) have "?R `` {x} \<subseteq> set descendants" by blast
        then show ?thesis using d' by auto
      qed
    qed
    have "set (descendantsLoop conns s' d') = ?R\<^sup>+ `` {t}"
      using "1.IH" [OF False current_def outgoing_def f [symmetric] refl a b c] .
    moreover have "descendantsLoop conns stack descendants = descendantsLoop conns s' d'"
      using False f by (subst descendantsLoop.simps) (simp add: current_def outgoing_def Let_def)
    ultimately show ?thesis by simp
  qed
qed

lemma set_getDescendantNodeIds:
  "set (getDescendantNodeIds conns t) = (edgeRel conns)\<^sup>+ `` {t}"
  unfolding getDescendantNodeIds_def
  by (rule descendantsLoop_invariant) simp_all

subsection \<open>Invariants of a round\<close>

lemma fold_runNode_invariant:
  assumes "P (fst s)"
    and "\<And>cur i f. P cur \<Longrightarrow> settled f \<Longrightarrow> i \<in> id_n ` set ns \<Longrightarrow>
           P (updateLocalAndState i f cur)"
  shows "P (fst (fold (runNode p conns ctx) ns s))"
  using assms
proof (induction ns arbitrary: s)
  case Nil
  then show ?case by simp
next
  case (Cons n ns)
  obtain cur k where s: "s = (cur, k)" by (cases s)
  from runNode_settled [of p conns ctx n cur k] obtain f where
    f: "settled f" "fst (runNode p conns ctx n (cur, k)) = updateLocalAndState (id_n n) f cur"
    by blast
  have "P (fst (runNode p conns ctx n s))"
    using Cons.prems(1) Cons.prems(2) [of cur f "id_n n"] f s by simp
  then have "P (fst (fold (runNode p conns ctx) ns (runNode p conns ctx n s)))"
    by (rule Cons.IH) (use Cons.prems(2) in auto)
  then show ?case by simp
qed

lemma runRound_invariant:
  assumes "P (fst s)"
    and "\<And>cur i f. P cur \<Longrightarrow> settled f \<Longrightarrow> i \<in> id_n ` set (nodesToRun conns (fst s)) \<Longrightarrow>
           P (updateLocalAndState i f cur)"
  shows "P (fst (runRound p conns ctx s))"
  unfolding runRound_def using assms by (rule fold_runNode_invariant)

lemma filter_updateLocalAndState:
  "settled f \<Longrightarrow> i \<notin> S \<Longrightarrow>
     filter (\<lambda>n. id_n n \<in> S) (updateLocalAndState i f cur) = filter (\<lambda>n. id_n n \<in> S) cur"
  by (induction cur) (auto simp: updateLocalAndState_def settled_id)

lemma map_id_updateLocalAndState:
  "settled f \<Longrightarrow> map id_n (updateLocalAndState i f cur) = map id_n cur"
  by (induction cur) (auto simp: updateLocalAndState_def settled_id)

lemma runRound_ids: "map id_n (fst (runRound p conns ctx s)) = map id_n (fst s)"
  by (rule runRound_invariant [where P = "\<lambda>c. map id_n c = map id_n (fst s)"])
     (simp_all add: map_id_updateLocalAndState)

text \<open>A round leaves alone every node whose id is the id of no selected node.\<close>

lemma runRound_frame:
  assumes "\<forall>n\<in>set (nodesToRun conns (fst s)). id_n n \<notin> S"
  shows "filter (\<lambda>n. id_n n \<in> S) (fst (runRound p conns ctx s)) = filter (\<lambda>n. id_n n \<in> S) (fst s)"
  by (rule runRound_invariant
        [where P = "\<lambda>c. filter (\<lambda>n. id_n n \<in> S) c = filter (\<lambda>n. id_n n \<in> S) (fst s)"])
     (use assms in \<open>auto simp: filter_updateLocalAndState\<close>)

lemma settledAt_update:
  "settled f \<Longrightarrow> settledAt A cur \<Longrightarrow> settledAt (insert i A) (updateLocalAndState i f cur)"
  by (auto simp: settledAt_def updateLocalAndState_def settled_id dest: settled_status)

lemma fold_runNode_settledAt:
  "settledAt A (fst s) \<Longrightarrow>
     settledAt (A \<union> id_n ` set ns) (fst (fold (runNode p conns ctx) ns s))"
proof (induction ns arbitrary: s A)
  case Nil
  then show ?case by simp
next
  case (Cons n ns)
  obtain cur k where s: "s = (cur, k)" by (cases s)
  from runNode_settled [of p conns ctx n cur k] obtain f where
    f: "settled f" "fst (runNode p conns ctx n (cur, k)) = updateLocalAndState (id_n n) f cur"
    by blast
  have "settledAt (insert (id_n n) A) (fst (runNode p conns ctx n s))"
    using settledAt_update [OF f(1)] Cons.prems f(2) s by simp
  from Cons.IH [OF this] show ?case by simp
qed

lemma runRound_settles:
  assumes "n \<in> set (nodesToRun conns (fst s))"
    and "m \<in> set (fst (runRound p conns ctx s))" and "id_n m = id_n n"
  shows "status m = COMPLETED \<or> status m = ERROR"
proof -
  have "settledAt ({} \<union> id_n ` set (nodesToRun conns (fst s))) (fst (runRound p conns ctx s))"
    unfolding runRound_def by (rule fold_runNode_settledAt) (simp add: settledAt_def)
  with assms show ?thesis by (auto simp: settledAt_def)
qed

subsection \<open>The loop as an iteration of rounds\<close>

lemma funpow_invariant:
  assumes "P s" and "\<And>s. P s \<Longrightarrow> P (f s)"
  shows "P ((f ^^ k) s)"
  using assms by (induction k) simp_all

lemma processRounds_funpow:
  "\<exists>k\<le>idleCount (fst s).
     nodesToRun conns (fst ((runRound p conns ctx ^^ k) s)) = []
   \<and> processRounds p conns ctx s = (runRound p conns ctx ^^ k) s"
proof (induction p conns ctx s rule: processRounds.induct)
  case (1 p conns ctx s)
  show ?case
  proof (cases "nodesToRun conns (fst s) = []")
    case True
    then have "processRounds p conns ctx s = s"
      by (subst processRounds.simps) simp
    with True show ?thesis by (intro exI [of _ 0]) simp
  next
    case False
    from "1.IH" [OF False] obtain k where
      k: "k \<le> idleCount (fst (runRound p conns ctx s))"
        "nodesToRun conns (fst ((runRound p conns ctx ^^ k) (runRound p conns ctx s))) = []"
        "processRounds p conns ctx (runRound p conns ctx s)
          = (runRound p conns ctx ^^ k) (runRound p conns ctx s)"
      by blast
    have "Suc k \<le> idleCount (fst s)"
      using k(1) runRound_idleCount_less [OF False, of p ctx] by simp
    moreover have "nodesToRun conns (fst ((runRound p conns ctx ^^ Suc k) s)) = []"
      using k(2) by (simp add: funpow_swap1)
    moreover have "processRounds p conns ctx s = processRounds p conns ctx (runRound p conns ctx s)"
      using False by (subst processRounds.simps) simp
    then have "processRounds p conns ctx s = (runRound p conns ctx ^^ Suc k) s"
      using k(3) by (simp add: funpow_swap1)
    ultimately show ?thesis by blast
  qed
qed

lemma idleCount_le_length: "idleCount cur \<le> length cur"
  by (simp add: idleCount_def)

lemma length_updateLocalAndState [simp]: "length (updateLocalAndState i f cur) = length cur"
  by (simp add: updateLocalAndState_def)

lemma length_resolveInstant: "length (resolveInstant nodes) = length nodes"
proof -
  have "length (fold (\<lambda>node cur. updateLocalAndState (id_n node) (g node) cur) ns cur) = length cur"
    for g :: "NodeData \<Rightarrow> NodeData \<Rightarrow> NodeData" and ns cur
    by (induction ns arbitrary: cur) simp_all
  then show ?thesis by (simp add: resolveInstant_def)
qed

subsection \<open>The instant step\<close>

lemma resolveInstant_fold:
  "resolveInstant nodes =
     fold (\<lambda>x cur. updateLocalAndState (id_n x) (complete x) cur) (instantNodes nodes) nodes"
  by (simp add: resolveInstant_def complete_def [abs_def])

lemma resolveInstant_invariant:
  assumes "P nodes"
    and "\<And>cur x. P cur \<Longrightarrow> x \<in> set (instantNodes nodes) \<Longrightarrow>
           P (updateLocalAndState (id_n x) (complete x) cur)"
  shows "P (resolveInstant nodes)"
proof -
  have "P (fold (\<lambda>x cur. updateLocalAndState (id_n x) (complete x) cur) xs cur)"
    if "P cur" "set xs \<subseteq> set (instantNodes nodes)" for xs cur
    using that by (induction xs arbitrary: cur) (simp_all add: assms(2))
  from this [OF assms(1) subset_refl] show ?thesis
    by (simp add: resolveInstant_fold)
qed

lemma resolveInstant_frame:
  assumes "\<forall>x\<in>set (instantNodes nodes). id_n x \<notin> S"
  shows "filter (\<lambda>n. id_n n \<in> S) (resolveInstant nodes) = filter (\<lambda>n. id_n n \<in> S) nodes"
proof (rule resolveInstant_invariant
    [where P = "\<lambda>c. filter (\<lambda>n. id_n n \<in> S) c = filter (\<lambda>n. id_n n \<in> S) nodes"])
  fix cur x
  assume "filter (\<lambda>n. id_n n \<in> S) cur = filter (\<lambda>n. id_n n \<in> S) nodes"
    and "x \<in> set (instantNodes nodes)"
  moreover from this assms have "id_n x \<notin> S" by blast
  then have "filter (\<lambda>n. id_n n \<in> S) (updateLocalAndState (id_n x) (complete x) cur)
      = filter (\<lambda>n. id_n n \<in> S) cur"
    by (induction cur) (auto simp: updateLocalAndState_def complete_def)
  ultimately show "filter (\<lambda>n. id_n n \<in> S) (updateLocalAndState (id_n x) (complete x) cur)
      = filter (\<lambda>n. id_n n \<in> S) nodes"
    by simp
qed simp

lemma resolveInstant_completes:
  assumes "x \<in> set (instantNodes nodes)" and "m \<in> set (resolveInstant nodes)"
    and "id_n m = id_n x"
  shows "status m = COMPLETED"
proof -
  have "\<forall>m\<in>set (fold (\<lambda>x cur. updateLocalAndState (id_n x) (complete x) cur) xs cur).
          id_n m \<in> A \<union> id_n ` set xs \<longrightarrow> status m = COMPLETED"
    if "\<forall>m\<in>set cur. id_n m \<in> A \<longrightarrow> status m = COMPLETED" for xs cur A
    using that
  proof (induction xs arbitrary: cur A)
    case Nil
    then show ?case by simp
  next
    case (Cons y ys)
    have "\<forall>m\<in>set (updateLocalAndState (id_n y) (complete y) cur).
            id_n m \<in> insert (id_n y) A \<longrightarrow> status m = COMPLETED"
      using Cons.prems by (auto simp: updateLocalAndState_def complete_def)
    from Cons.IH [OF this] show ?case by simp
  qed
  from this [of nodes "{}" "instantNodes nodes"] assms show ?thesis
    by (auto simp: resolveInstant_fold)
qed

lemma noIdleInstant_resolveInstant: "noIdleInstant (resolveInstant nodes)"
  unfolding noIdleInstant_def
proof (intro ballI impI notI)
  fix m
  assume m: "m \<in> set (resolveInstant nodes)" "type_n m = INPUT \<or> type_n m = IMAGE_NODE"
    "status m = IDLE"
  define S where "S = - id_n ` set (instantNodes nodes)"
  show False
  proof (cases "id_n m \<in> id_n ` set (instantNodes nodes)")
    case True
    then obtain x where "x \<in> set (instantNodes nodes)" "id_n m = id_n x" by auto
    from resolveInstant_completes [OF this(1) m(1) this(2)] m(3) show False by simp
  next
    case False
    have "filter (\<lambda>n. id_n n \<in> S) (resolveInstant nodes) = filter (\<lambda>n. id_n n \<in> S) nodes"
      by (rule resolveInstant_frame) (simp add: S_def)
    moreover have "m \<in> set (filter (\<lambda>n. id_n n \<in> S) (resolveInstant nodes))"
      using m(1) False by (simp add: S_def)
    ultimately have "m \<in> set nodes" by simp
    with m(2,3) have "m \<in> set (instantNodes nodes)" by (simp add: instantNodes_def)
    with False show False by simp
  qed
qed

lemma noIdleInstant_update:
  "settled f \<Longrightarrow> noIdleInstant cur \<Longrightarrow> noIdleInstant (updateLocalAndState i f cur)"
  by (auto simp: noIdleInstant_def updateLocalAndState_def settled_type settled_not_idle)

lemma noIdleInstant_runRound:
  "noIdleInstant (fst s) \<Longrightarrow> noIdleInstant (fst (runRound p conns ctx s))"
  by (rule runRound_invariant) (simp_all add: noIdleInstant_update)

lemma noIdleInstant_rounds:
  "noIdleInstant (fst ((runRound p conns ctx ^^ k) (resolveInstant nodes, j)))"
  by (rule funpow_invariant [where P = "\<lambda>s. noIdleInstant (fst s)"])
     (simp_all add: noIdleInstant_resolveInstant noIdleInstant_runRound)

lemma sourceReady_iff:
  "sourceReady cur e \<longleftrightarrow> (\<exists>s. find (\<lambda>m. id_n m = sourceId e) cur = Some s \<and> status s = COMPLETED)"
  by (simp add: sourceReady_def split: option.splits)

subsection \<open>The instant step on distinct ids\<close>

lemma fold_update_distinct:
  assumes "\<And>x n. id_n (g x n) = id_n n"
  shows "distinct (map id_n xs) \<Longrightarrow>
     fold (\<lambda>x cur. updateLocalAndState (id_n x) (g x) cur) xs cur
       = map (\<lambda>n. case find (\<lambda>x. id_n x = id_n n) xs of None \<Rightarrow> n | Some x \<Rightarrow> g x n) cur"
proof (induction xs arbitrary: cur)
  case Nil
  then show ?case by simp
next
  case (Cons y ys)
  have none: "find (\<lambda>x. id_n x = id_n y) ys = None"
    using Cons.prems by (force simp: find_None_iff image_iff)
  have "fold (\<lambda>x cur. updateLocalAndState (id_n x) (g x) cur) (y # ys) cur
      = map (\<lambda>n. case find (\<lambda>x. id_n x = id_n n) ys of None \<Rightarrow> n | Some x \<Rightarrow> g x n)
          (updateLocalAndState (id_n y) (g y) cur)"
    using Cons.IH [of "updateLocalAndState (id_n y) (g y) cur"] Cons.prems by simp
  also have "\<dots> = map (\<lambda>n. case find (\<lambda>x. id_n x = id_n n) (y # ys) of
                             None \<Rightarrow> n | Some x \<Rightarrow> g x n) cur"
    unfolding updateLocalAndState_def map_map
  proof (rule map_cong [OF refl])
    fix n
    show "((\<lambda>n. case find (\<lambda>x. id_n x = id_n n) ys of None \<Rightarrow> n | Some x \<Rightarrow> g x n)
             \<circ> (\<lambda>n. if id_n n = id_n y then g y n else n)) n
        = (case find (\<lambda>x. id_n x = id_n n) (y # ys) of None \<Rightarrow> n | Some x \<Rightarrow> g x n)"
      using none assms by (cases "id_n n = id_n y") auto
  qed
  finally show ?case .
qed

lemma find_filter_distinct:
  "distinct (map id_n xs) \<Longrightarrow> n \<in> set xs \<Longrightarrow>
     find (\<lambda>x. id_n x = id_n n) (filter P xs) = (if P n then Some n else None)"
proof (induction xs)
  case Nil
  then show ?case by simp
next
  case (Cons a xs)
  show ?case
  proof (cases "a = n")
    case True
    have "find (\<lambda>x. id_n x = id_n n) (filter P xs) = None"
      using Cons.prems(1) True by (force simp: find_None_iff image_iff)
    with True show ?thesis by simp
  next
    case False
    with Cons.prems have "n \<in> set xs" "id_n a \<noteq> id_n n" by auto
    with Cons.IH Cons.prems(1) show ?thesis by simp
  qed
qed

lemma resolveInstant_distinct:
  assumes "distinct (map id_n nodes)"
  shows "resolveInstant nodes =
     map (\<lambda>n. if (type_n n = INPUT \<or> type_n n = IMAGE_NODE) \<and> status n = IDLE
               then complete n n else n) nodes"
proof -
  have d: "distinct (map id_n (instantNodes nodes))"
    unfolding instantNodes_def using assms by (rule distinct_map_filter)
  have "resolveInstant nodes =
      map (\<lambda>n. case find (\<lambda>x. id_n x = id_n n) (instantNodes nodes) of
                  None \<Rightarrow> n | Some x \<Rightarrow> complete x n) nodes"
    unfolding resolveInstant_fold
    by (rule fold_update_distinct [OF _ d]) (simp add: complete_def)
  also have "\<dots> = map (\<lambda>n. if (type_n n = INPUT \<or> type_n n = IMAGE_NODE) \<and> status n = IDLE
                          then complete n n else n) nodes"
    by (rule map_cong [OF refl]) (simp add: instantNodes_def find_filter_distinct [OF assms])
  finally show ?thesis .
qed

subsection \<open>The inputs of a node\<close>

lemma collect_pair:
  "collect cur e (ts, is) =
     (case find (\<lambda>m. id_n m = sourceId e) cur of
        None \<Rightarrow> (ts, is)
      | Some s \<Rightarrow>
          if type_n s = IMAGE_NODE
          then (ts, is @ (case imageUrls s of None \<Rightarrow> [] | Some urls \<Rightarrow> urls))
          else (ts @ [content s], is))"
  by (simp add: collect_def split: option.splits)

lemma fold_collect:
  "fold (collect cur) es (ts, is) =
     (ts @ map content (filter (\<lambda>s. type_n s \<noteq> IMAGE_NODE)
                          (List.map_filter (\<lambda>e. find (\<lambda>m. id_n m = sourceId e) cur) es)),
      is @ imageRefs (List.map_filter (\<lambda>e. find (\<lambda>m. id_n m = sourceId e) cur) es))"
proof (induction es arbitrary: ts "is")
  case Nil
  show ?case by (simp add: List.map_filter_simps imageRefs_def)
next
  case (Cons e es)
  show ?case
    by (cases "find (\<lambda>m. id_n m = sourceId e) cur")
       (simp_all add: collect_pair Cons.IH List.map_filter_simps imageRefs_def)
qed

lemma inputs_upstream:
  "inputs conns cur node =
     (map content (filter (\<lambda>s. type_n s \<noteq> IMAGE_NODE) (upstream conns cur node)),
      imageRefs (upstream conns cur node))"
  by (simp add: inputs_def fold_collect upstream_def)

subsection \<open>Trimming\<close>

lemma trimEnd_append_space:
  assumes "\<forall>c\<in>set w. isWhiteSpace c"
  shows "trimEnd (y @ w) = trimEnd y"
proof -
  have "dropWhile isWhiteSpace (rev w @ rev y) = dropWhile isWhiteSpace (rev y)"
    by (rule dropWhile_append2) (use assms in simp)
  then show ?thesis by (simp add: trimEnd_def)
qed

lemma trimEnd_append_text:
  assumes "c \<in> set y" and "\<not> isWhiteSpace c"
  shows "trimEnd (x @ y) = x @ trimEnd y"
proof -
  have "dropWhile isWhiteSpace (rev y @ rev x) = dropWhile isWhiteSpace (rev y) @ rev x"
    using assms by (intro dropWhile_append1 [of c]) simp_all
  then show ?thesis by (simp add: trimEnd_def)
qed

lemma hash_not_space: "\<not> isWhiteSpace (CHR ''#'')"
  by (simp add: isWhiteSpace_def)

lemma nl_space: "isWhiteSpace (CHR 0x0A)" "isWhiteSpace (CHR '' '')"
  by (simp_all add: isWhiteSpace_def)

subsection \<open>The error message invariant\<close>

lemma errorOnlyIfError_update:
  "settled f \<Longrightarrow> errorOnlyIfError cur \<Longrightarrow> errorOnlyIfError (updateLocalAndState i f cur)"
  by (auto simp: errorOnlyIfError_def updateLocalAndState_def settled_def)

lemma errorOnlyIfError_runRound:
  "errorOnlyIfError (fst s) \<Longrightarrow> errorOnlyIfError (fst (runRound p conns ctx s))"
  by (rule runRound_invariant) (simp_all add: errorOnlyIfError_update)

lemma errorOnlyIfError_rounds:
  "errorOnlyIfError (fst s) \<Longrightarrow> errorOnlyIfError (fst ((runRound p conns ctx ^^ k) s))"
  by (rule funpow_invariant [where P = "\<lambda>s. errorOnlyIfError (fst s)"])
     (simp_all add: errorOnlyIfError_runRound)

lemma errorOnlyIfError_resolveInstant:
  assumes "distinct (map id_n nodes)" and "errorOnlyIfError nodes"
  shows "errorOnlyIfError (resolveInstant nodes)"
  using assms(2) unfolding resolveInstant_distinct [OF assms(1)]
  by (auto simp: errorOnlyIfError_def complete_def)

lemma errorOnlyIfError_processWorkflowQueue:
  assumes "distinct (map id_n nodes)" and "errorOnlyIfError nodes"
  shows "errorOnlyIfError (processWorkflowQueue p conns ctx nodes)"
proof -
  from processRounds_funpow [of "(resolveInstant nodes, 0)" conns p ctx]
  obtain k where "processRounds p conns ctx (resolveInstant nodes, 0)
      = (runRound p conns ctx ^^ k) (resolveInstant nodes, 0)"
    by blast
  then show ?thesis
    unfolding processWorkflowQueue_def
    using errorOnlyIfError_rounds [where s = "(resolveInstant nodes, 0)" and k = k]
      errorOnlyIfError_resolveInstant [OF assms]
    by simp
qed

lemma errorOnlyIfError_resetNodes: "errorOnlyIfError (resetNodes nodes)"
  by (simp add: errorOnlyIfError_def resetNodes_def)

lemma errorOnlyIfError_updatedNodes:
  "errorOnlyIfError nodes \<Longrightarrow> errorOnlyIfError (updatedNodes conns t nodes)"
  by (auto simp: errorOnlyIfError_def updatedNodes_def Let_def)

lemma map_id_resetNodes: "map id_n (resetNodes nodes) = map id_n nodes"
  by (simp add: resetNodes_def)

lemma map_id_updatedNodes: "map id_n (updatedNodes conns t nodes) = map id_n nodes"
  by (simp add: updatedNodes_def Let_def)

subsection \<open>Nodes that can never be selected\<close>

lemma stuck_not_selected:
  assumes "stuck conns S cur" and "n \<in> set (nodesToRun conns cur)"
  shows "id_n n \<notin> S"
proof
  assume S: "id_n n \<in> S"
  from assms(2) have n: "n \<in> set cur" "ready conns cur n"
    by (simp_all add: nodesToRun_def)
  then have idle: "status n = IDLE"
    by (auto simp: ready_def split: if_splits)
  with assms(1) n(1) S obtain c where nb: "type_n n \<noteq> AI_BRAINSTORM"
    and c: "c \<in> set conns" "targetId c = id_n n"
      "\<forall>m\<in>set cur. id_n m = sourceId c \<longrightarrow> status m \<noteq> COMPLETED"
    unfolding stuck_def by blast
  from c(1,2) have "c \<in> set (filter (\<lambda>c. targetId c = id_n n) conns)" by simp
  with n(2) idle nb have "sourceReady cur c"
    by (auto simp: ready_def Let_def list_all_iff split: if_splits)
  then obtain s where "find (\<lambda>m. id_n m = sourceId c) cur = Some s" "status s = COMPLETED"
    by (auto simp: sourceReady_iff)
  then have "s \<in> set cur" "id_n s = sourceId c" "status s = COMPLETED"
    by (auto simp: find_Some_iff)
  with c(3) show False by blast
qed

lemma stuck_cong:
  assumes "filter (\<lambda>n. id_n n \<in> S) cur' = filter (\<lambda>n. id_n n \<in> S) cur"
    and "stuck conns S cur"
  shows "stuck conns S cur'"
proof -
  have mem: "m \<in> set cur" if "m \<in> set cur'" "id_n m \<in> S" for m
  proof -
    from that have "m \<in> set (filter (\<lambda>n. id_n n \<in> S) cur')" by simp
    with assms(1) show ?thesis by simp
  qed
  show ?thesis
    unfolding stuck_def
  proof (intro ballI impI)
    fix n assume n: "n \<in> set cur'" "id_n n \<in> S \<and> status n = IDLE"
    with mem have "n \<in> set cur" by blast
    with assms(2) n(2) obtain c where nb: "type_n n \<noteq> AI_BRAINSTORM"
      and c: "c \<in> set conns" "targetId c = id_n n" "sourceId c \<in> S"
        "\<forall>m\<in>set cur. id_n m = sourceId c \<longrightarrow> status m \<noteq> COMPLETED"
      unfolding stuck_def by blast
    have "\<forall>m\<in>set cur'. id_n m = sourceId c \<longrightarrow> status m \<noteq> COMPLETED"
      using c(3,4) mem by auto
    with nb c(1,2,3)
    show "type_n n \<noteq> AI_BRAINSTORM
      \<and> (\<exists>c\<in>set conns. targetId c = id_n n \<and> sourceId c \<in> S
            \<and> (\<forall>m\<in>set cur'. id_n m = sourceId c \<longrightarrow> status m \<noteq> COMPLETED))"
      by blast
  qed
qed

lemma stuck_runRound:
  assumes "stuck conns S (fst s)"
  shows "filter (\<lambda>n. id_n n \<in> S) (fst (runRound p conns ctx s)) = filter (\<lambda>n. id_n n \<in> S) (fst s)"
    and "stuck conns S (fst (runRound p conns ctx s))"
proof -
  show f: "filter (\<lambda>n. id_n n \<in> S) (fst (runRound p conns ctx s))
      = filter (\<lambda>n. id_n n \<in> S) (fst s)"
    by (rule runRound_frame) (use assms stuck_not_selected in blast)
  from f assms show "stuck conns S (fst (runRound p conns ctx s))"
    by (rule stuck_cong)
qed

lemma stuck_rounds:
  assumes "stuck conns S (fst s)"
  shows "filter (\<lambda>n. id_n n \<in> S) (fst ((runRound p conns ctx ^^ k) s))
           = filter (\<lambda>n. id_n n \<in> S) (fst s)
       \<and> stuck conns S (fst ((runRound p conns ctx ^^ k) s))"
proof (induction k)
  case 0
  with assms show ?case by simp
next
  case (Suc k)
  with stuck_runRound [of conns S "(runRound p conns ctx ^^ k) s" p ctx]
  show ?case by simp
qed

lemma stuck_processRounds:
  assumes "stuck conns S (fst s)"
  shows "filter (\<lambda>n. id_n n \<in> S) (fst (processRounds p conns ctx s))
           = filter (\<lambda>n. id_n n \<in> S) (fst s)"
proof -
  from processRounds_funpow [of s conns p ctx]
  obtain k where "processRounds p conns ctx s = (runRound p conns ctx ^^ k) s"
    by blast
  with stuck_rounds [OF assms, where p = p and ctx = ctx and k = k] show ?thesis by simp
qed

text \<open>A state in which no node is selected is a fixed point of the round.\<close>

lemma runRound_quiescent:
  "nodesToRun conns (fst s) = [] \<Longrightarrow> (runRound p conns ctx ^^ j) s = s"
  by (induction j) (simp_all add: runRound_def funpow_swap1)

subsection \<open>Cycles\<close>

lemma path_predecessor:
  "path conns (y # ys) \<Longrightarrow> x \<in> set ys \<Longrightarrow>
     \<exists>c\<in>set conns. targetId c = x \<and> sourceId c \<in> set (y # butlast ys)"
proof (induction ys arbitrary: y)
  case Nil
  then show ?case by simp
next
  case (Cons z zs)
  show ?case
  proof (cases "x = z")
    case True
    with Cons.prems(1) show ?thesis by auto
  next
    case False
    with Cons.prems have "path conns (z # zs)" "x \<in> set zs" by auto
    from Cons.IH [OF this] obtain c where
      "c \<in> set conns" "targetId c = x" "sourceId c \<in> set (z # butlast zs)"
      by blast
    moreover from \<open>x \<in> set zs\<close> have "zs \<noteq> []" by auto
    ultimately show ?thesis by auto
  qed
qed

lemma cycle_predecessor:
  assumes "isCycle conns cyc" and "x \<in> set cyc"
  shows "\<exists>c\<in>set conns. targetId c = x \<and> sourceId c \<in> set cyc"
proof -
  from assms(1) obtain h t where cyc: "cyc = h # t" and p: "path conns (h # (t @ [h]))"
    by (cases cyc) (auto simp: isCycle_def)
  from assms(2) cyc have "x \<in> set (t @ [h])" by auto
  from path_predecessor [OF p this] cyc show ?thesis by simp
qed

lemma stuck_cycle:
  assumes "isCycle conns cyc"
    and "\<forall>n\<in>set nodes. id_n n \<in> set cyc \<longrightarrow>
           status n = IDLE \<and> type_n n \<noteq> INPUT \<and> type_n n \<noteq> IMAGE_NODE \<and> type_n n \<noteq> AI_BRAINSTORM"
  shows "stuck conns (set cyc) (resolveInstant nodes)"
    and "filter (\<lambda>n. id_n n \<in> set cyc) (resolveInstant nodes) = filter (\<lambda>n. id_n n \<in> set cyc) nodes"
proof -
  have "stuck conns (set cyc) nodes"
    unfolding stuck_def
  proof (intro ballI impI)
    fix n assume n: "n \<in> set nodes" "id_n n \<in> set cyc \<and> status n = IDLE"
    from cycle_predecessor [OF assms(1), of "id_n n"] n(2) obtain c where
      c: "c \<in> set conns" "targetId c = id_n n" "sourceId c \<in> set cyc"
      by blast
    have "\<forall>m\<in>set nodes. id_n m = sourceId c \<longrightarrow> status m \<noteq> COMPLETED"
      using assms(2) c(3) by auto
    with c n assms(2)
    show "type_n n \<noteq> AI_BRAINSTORM
      \<and> (\<exists>c\<in>set conns. targetId c = id_n n \<and> sourceId c \<in> set cyc
            \<and> (\<forall>m\<in>set nodes. id_n m = sourceId c \<longrightarrow> status m \<noteq> COMPLETED))"
      by blast
  qed
  moreover show f: "filter (\<lambda>n. id_n n \<in> set cyc) (resolveInstant nodes)
      = filter (\<lambda>n. id_n n \<in> set cyc) nodes"
    by (rule resolveInstant_frame) (use assms(2) in \<open>auto simp: instantNodes_def\<close>)
  ultimately show "stuck conns (set cyc) (resolveInstant nodes)"
    using stuck_cong by blast
qed

subsection \<open>Runs on nodes with pairwise different ids\<close>

lemma map_id_resolveInstant: "map id_n (resolveInstant nodes) = map id_n nodes"
  by (rule resolveInstant_invariant [where P = "\<lambda>c. map id_n c = map id_n nodes"])
     (simp_all add: updateLocalAndState_def complete_def comp_def if_distrib cong: if_cong)

lemma map_id_rounds:
  "map id_n (fst ((runRound p conns ctx ^^ k) s)) = map id_n (fst s)"
  by (induction k) (simp_all add: runRound_ids)

lemma distinct_id_eq:
  "distinct (map id_n xs) \<Longrightarrow> x \<in> set xs \<Longrightarrow> y \<in> set xs \<Longrightarrow> id_n x = id_n y \<Longrightarrow> x = y"
  by (meson distinct_map inj_on_def)

lemma find_distinct:
  "distinct (map id_n xs) \<Longrightarrow> x \<in> set xs \<Longrightarrow> find (\<lambda>n. id_n n = id_n x) xs = Some x"
  using find_filter_distinct [of xs x "\<lambda>n. True"] by simp

lemma find_SomeD: "find P xs = Some x \<Longrightarrow> x \<in> set xs \<and> P x"
  by (auto simp: find_Some_iff)

lemma funpow_commute: "(f ^^ m) ((f ^^ n) x) = (f ^^ n) ((f ^^ m) x)"
  by (metis add.commute funpow_add comp_apply)

lemma not_ready_source:
  assumes "c \<in> set conns" and "targetId c = id_n n" and "type_n n \<noteq> AI_BRAINSTORM"
    and "\<forall>m\<in>set cur. id_n m = sourceId c \<longrightarrow> status m \<noteq> COMPLETED"
  shows "\<not> ready conns cur n"
proof
  assume r: "ready conns cur n"
  from assms(1,2) have "c \<in> set (filter (\<lambda>c. targetId c = id_n n) conns)" by simp
  with r assms(3) have "sourceReady cur c"
    by (auto simp: ready_def Let_def list_all_iff split: if_splits)
  then obtain s where "find (\<lambda>m. id_n m = sourceId c) cur = Some s" "status s = COMPLETED"
    by (auto simp: sourceReady_iff)
  then have "s \<in> set cur" "id_n s = sourceId c" "status s = COMPLETED"
    by (auto simp: find_Some_iff)
  with assms(4) show False by blast
qed

text \<open>
  On distinct ids a node that is not Idle is never touched again: it is in every
  later state, and in the result of the loop.
\<close>

lemma settled_node_stays:
  assumes "distinct (map id_n (fst s))" and "m \<in> set (fst s)" and "status m \<noteq> IDLE"
  shows "m \<in> set (fst ((runRound p conns ctx ^^ j) s))"
proof -
  have "stuck conns {id_n m} (fst s)"
    unfolding stuck_def using assms distinct_id_eq [OF assms(1)] by blast
  from stuck_rounds [OF this, where p = p and ctx = ctx and k = j]
  have "filter (\<lambda>n. id_n n \<in> {id_n m}) (fst ((runRound p conns ctx ^^ j) s))
      = filter (\<lambda>n. id_n n \<in> {id_n m}) (fst s)"
    by simp
  moreover have "m \<in> set (filter (\<lambda>n. id_n n \<in> {id_n m}) (fst s))"
    using assms(2) by simp
  ultimately have "m \<in> set (filter (\<lambda>n. id_n n \<in> {id_n m})
      (fst ((runRound p conns ctx ^^ j) s)))"
    by simp
  then show ?thesis by simp
qed

subsection \<open>What a round does to a node\<close>

lemma transition_settled:
  "settled f \<Longrightarrow> status n = IDLE \<Longrightarrow> transition n (f n)"
  by (auto simp: settled_def transition_def)

lemma transition_id: "transition n n' \<Longrightarrow> id_n n' = id_n n"
  unfolding transition_def
proof (elim disjE conjE)
  assume "n' = n\<lparr>content := content n', status := COMPLETED, errorMessage := None\<rparr>"
  then have "id_n n' = id_n (n\<lparr>content := content n', status := COMPLETED, errorMessage := None\<rparr>)"
    by (rule arg_cong)
  then show ?thesis by simp
next
  assume "n' = n\<lparr>status := ERROR, errorMessage := errorMessage n'\<rparr>"
  then have "id_n n' = id_n (n\<lparr>status := ERROR, errorMessage := errorMessage n'\<rparr>)"
    by (rule arg_cong)
  then show ?thesis by simp
qed simp

lemma fold_runNode_transition:
  assumes "distinct (map id_n cur)"
  shows "distinct (map id_n ns) \<Longrightarrow> set ns \<subseteq> set cur \<Longrightarrow> \<forall>n\<in>set ns. status n = IDLE \<Longrightarrow>
    list_all2 (\<lambda>n n'. transition n n' \<and> (id_n n \<in> id_n ` set ns \<longrightarrow> n' = n)) cur (fst s) \<Longrightarrow>
    list_all2 transition cur (fst (fold (runNode p conns ctx) ns s))"
proof (induction ns arbitrary: s)
  case Nil
  then show ?case by (auto elim: list_all2_mono)
next
  case (Cons x xs)
  obtain c k where s: "s = (c, k)" by (cases s)
  from runNode_settled [of p conns ctx x c k] obtain f where
    f: "settled f" "fst (runNode p conns ctx x (c, k)) = updateLocalAndState (id_n x) f c"
    by blast
  from Cons.prems have x: "x \<in> set cur" "status x = IDLE" "id_n x \<notin> id_n ` set xs"
    by auto
  have "list_all2 (\<lambda>n n'. transition n n' \<and> (id_n n \<in> id_n ` set xs \<longrightarrow> n' = n))
          cur (updateLocalAndState (id_n x) f c)"
    unfolding updateLocalAndState_def list_all2_map2
  proof (rule list.rel_mono_strong [OF Cons.prems(4) [unfolded s fst_conv]])
    fix n n'
    assume "n \<in> set cur" "n' \<in> set c"
      and h: "transition n n' \<and> (id_n n \<in> id_n ` set (x # xs) \<longrightarrow> n' = n)"
    show "transition n (if id_n n' = id_n x then f n' else n')
        \<and> (id_n n \<in> id_n ` set xs \<longrightarrow> (if id_n n' = id_n x then f n' else n') = n)"
    proof (cases "id_n n = id_n x")
      case True
      with h have "n' = n" by simp
      moreover from True \<open>n \<in> set cur\<close> x(1) assms have "n = x"
        by (meson distinct_id_eq)
      ultimately show ?thesis
        using x(2,3) f(1) by (simp add: transition_settled)
    next
      case False
      have "id_n n' = id_n n"
        using h transition_id by blast
      with False h show ?thesis by auto
    qed
  qed
  then have "list_all2 transition cur
      (fst (fold (runNode p conns ctx) xs (runNode p conns ctx x s)))"
    using Cons.prems f s by (intro Cons.IH) auto
  then show ?case by simp
qed

lemma runRound_transition:
  assumes "distinct (map id_n (fst s))"
  shows "list_all2 transition (fst s) (fst (runRound p conns ctx s))"
  unfolding runRound_def
proof (rule fold_runNode_transition [OF assms])
  show "distinct (map id_n (nodesToRun conns (fst s)))"
    unfolding nodesToRun_def using assms by (rule distinct_map_filter)
  show "set (nodesToRun conns (fst s)) \<subseteq> set (fst s)"
    by (simp add: nodesToRun_def)
  show "\<forall>n\<in>set (nodesToRun conns (fst s)). status n = IDLE"
    using nodesToRun_idle by blast
  show "list_all2 (\<lambda>n n'. transition n n' \<and> (id_n n \<in> id_n ` set (nodesToRun conns (fst s)) \<longrightarrow> n' = n))
          (fst s) (fst s)"
    by (simp add: list_all2_same transition_def)
qed

subsection \<open>The descendants of a failed node\<close>





subsection \<open>Each dispatched node gets the outcome of its own call\<close>

















subsection \<open>The nodes behind a failed node, the end of a run, the nodes of a cycle\<close>



lemma cycle_nodes_kept:
  assumes "isCycle conns cyc"
    and "\<forall>n\<in>set nodes. id_n n \<in> set cyc \<longrightarrow>
           status n = IDLE \<and> type_n n \<noteq> INPUT \<and> type_n n \<noteq> IMAGE_NODE \<and> type_n n \<noteq> AI_BRAINSTORM"
  shows "filter (\<lambda>n. id_n n \<in> set cyc) (processWorkflowQueue p conns ctx nodes)
           = filter (\<lambda>n. id_n n \<in> set cyc) nodes"
proof -
  have st: "stuck conns (set cyc) (fst (resolveInstant nodes, 0::nat))"
    using stuck_cycle(1) [OF assms] by simp
  show ?thesis
    unfolding processWorkflowQueue_def
    using stuck_processRounds [OF st, where p = p and ctx = ctx] stuck_cycle(2) [OF assms]
    by simp
qed

section \<open>C1: the retry cascade\<close>

text \<open>
  C1, as the code has it. The reset of \<^verbatim>\<open>handleRetryNode\<close> on a target id sets exactly
  the nodes whose id is the target or is reachable from it along the connections to
  \<open>IDLE\<close> and clears their \<open>errorMessage\<close>; every other node is returned as
  it was, and the \<open>content\<close> of every node, reset or not, is what it was before.
  \<^verbatim>\<open>handleRetryNode\<close> makes this reset and starts the queue on its result when no
  run is executing, and does nothing while one is.
\<close>

theorem retry_cascade_reset:
  "updatedNodes conns t nodes =
     map (\<lambda>n. if (t, id_n n) \<in> (edgeRel conns)\<^sup>*
               then n\<lparr>status := IDLE, errorMessage := None\<rparr> else n) nodes
   \<and> map content (updatedNodes conns t nodes) = map content nodes
   \<and> handleRetryNode p conns ctx isExecuting t nodes =
       (if isExecuting then nodes
        else processWorkflowQueue p conns ctx (updatedNodes conns t nodes))"
proof -
  have h: "id_n n \<in> set (t # getDescendantNodeIds conns t) \<longleftrightarrow> (t, id_n n) \<in> (edgeRel conns)\<^sup>*" for n
    by (auto simp: set_getDescendantNodeIds rtrancl_eq_or_trancl)
  have eq: "updatedNodes conns t nodes =
     map (\<lambda>n. if (t, id_n n) \<in> (edgeRel conns)\<^sup>*
               then n\<lparr>status := IDLE, errorMessage := None\<rparr> else n) nodes"
    unfolding updatedNodes_def Let_def by (simp only: h)
  have "map content (updatedNodes conns t nodes) = map content nodes"
    unfolding eq by (induction nodes) simp_all
  moreover have "handleRetryNode p conns ctx isExecuting t nodes =
       (if isExecuting then nodes
        else processWorkflowQueue p conns ctx (updatedNodes conns t nodes))"
    by (simp add: handleRetryNode_def)
  ultimately show ?thesis using eq by simp
qed

text \<open>
  C1 as stated asks for the \<open>content\<close> of the reset nodes to be cleared. On the
  chain A, B, C, D, retrying B resets B, C and D and leaves A alone, but B and C keep
  the content they had.
\<close>

theorem retry_cascade_content_counterexample:
  "updatedNodes [mkEdge ''A'' ''B'', mkEdge ''B'' ''C'', mkEdge ''C'' ''D''] ''B''
     [mkNode ''A'' INPUT ''X'' COMPLETED, mkNode ''B'' AI_GENERATOR ''Y'' COMPLETED,
      mkNode ''C'' AI_OPTIMIZER ''Z'' ERROR, mkNode ''D'' OUTPUT_PREVIEW [] IDLE]
   = [mkNode ''A'' INPUT ''X'' COMPLETED, mkNode ''B'' AI_GENERATOR ''Y'' IDLE,
      mkNode ''C'' AI_OPTIMIZER ''Z'' IDLE, mkNode ''D'' OUTPUT_PREVIEW [] IDLE]"
  by code_simp

section \<open>C2: what the statuses say about content and errorMessage\<close>

text \<open>
  C2, as the code has it. On nodes with pairwise different ids, \<open>errorMessage\<close> is set
  only on nodes with status \<open>ERROR\<close>: this holds after the reset of a full run whatever
  the state before, and it is kept by the reset of the retry cascade, by the instant step
  and every round of the scheduler, and so by a whole run. A reset returns its nodes to
  \<open>IDLE\<close> with \<open>errorMessage\<close> cleared and leaves the \<open>content\<close> of every node as it
  was. A round changes a node only by a transition from Idle to Completed or from Idle
  to Error, and the transition to Error leaves the content as it was.
\<close>

theorem error_message_only_in_error:
  assumes "distinct (map id_n nodes)"
  shows "errorOnlyIfError (resetNodes nodes)
    \<and> errorOnlyIfError (executeWorkflow p conns ctx nodes)
    \<and> (errorOnlyIfError nodes \<longrightarrow>
          errorOnlyIfError (updatedNodes conns t nodes)
        \<and> errorOnlyIfError (fst ((runRound p conns ctx ^^ k) (resolveInstant nodes, 0)))
        \<and> errorOnlyIfError (processWorkflowQueue p conns ctx nodes)
        \<and> errorOnlyIfError (handleRetryNode p conns ctx isExecuting t nodes))
    \<and> (\<forall>n\<in>set (resetNodes nodes). status n = IDLE \<and> errorMessage n = None)
    \<and> (\<forall>n\<in>set (updatedNodes conns t nodes).
          n \<in> set nodes \<or> status n = IDLE \<and> errorMessage n = None)
    \<and> map content (resetNodes nodes) = map content nodes
    \<and> map content (updatedNodes conns t nodes) = map content nodes
    \<and> list_all2 transition nodes (fst (runRound p conns ctx (nodes, k)))"
proof -
  have d1: "distinct (map id_n (resetNodes nodes))"
    using assms by (simp add: map_id_resetNodes)
  have d2: "distinct (map id_n (updatedNodes conns t nodes))"
    using assms by (simp add: map_id_updatedNodes)
  have a: "errorOnlyIfError (executeWorkflow p conns ctx nodes)"
    unfolding executeWorkflow_def
    by (rule errorOnlyIfError_processWorkflowQueue [OF d1 errorOnlyIfError_resetNodes])
  have b: "errorOnlyIfError (handleRetryNode p conns ctx isExecuting t nodes)"
    if "errorOnlyIfError nodes"
    unfolding handleRetryNode_def
    using that errorOnlyIfError_processWorkflowQueue [OF d2 errorOnlyIfError_updatedNodes [OF that]]
    by simp
  have c: "errorOnlyIfError (fst ((runRound p conns ctx ^^ k) (resolveInstant nodes, 0)))"
    if "errorOnlyIfError nodes"
    using errorOnlyIfError_rounds [where s = "(resolveInstant nodes, 0)" and k = k]
      errorOnlyIfError_resolveInstant [OF assms that]
    by simp
  have e: "\<forall>n\<in>set (updatedNodes conns t nodes).
          n \<in> set nodes \<or> status n = IDLE \<and> errorMessage n = None"
    by (auto simp: updatedNodes_def Let_def)
  have f: "map content (updatedNodes conns t nodes) = map content nodes"
    unfolding updatedNodes_def Let_def by (induction nodes) simp_all
  have g: "\<forall>n\<in>set (resetNodes nodes). status n = IDLE \<and> errorMessage n = None"
    by (auto simp: resetNodes_def)
  have h: "map content (resetNodes nodes) = map content nodes"
    by (simp add: resetNodes_def comp_def)
  have i: "list_all2 transition nodes (fst (runRound p conns ctx (nodes, k)))"
    using runRound_transition [of "(nodes, k)" p conns ctx] assms by simp
  show ?thesis
    using a b c e f g h i assms
    by (simp add: errorOnlyIfError_resetNodes errorOnlyIfError_updatedNodes
        errorOnlyIfError_processWorkflowQueue)
qed

theorem error_message_only_in_error_witness:
  "distinct (map id_n pipeline) \<and> errorOnlyIfError pipeline
   \<and> errorOnlyIfError (handleRetryNode failing pipelineEdges ''ctx'' False ''writer'' pipeline)
   \<and> errorOnlyIfError (executeWorkflow failing pipelineEdges ''ctx'' pipeline)"
proof -
  have d: "distinct (map id_n pipeline)"
    by (simp add: pipeline_def mkNode_def)
  have e: "errorOnlyIfError pipeline"
    by (simp add: errorOnlyIfError_def pipeline_def mkNode_def)
  from error_message_only_in_error [OF d, of failing pipelineEdges "''ctx''" "''writer''" 0 False] d e
  show ?thesis by simp
qed

text \<open>
  C2 as stated fails on the content: a full run with a working provider followed by a
  full run with a failing provider ends with the writer in \<open>ERROR\<close> and the coder and
  the preview in \<open>IDLE\<close>, each still holding the content of the first run.
\<close>

theorem content_kept_by_reset_counterexample:
  "executeWorkflow failing pipelineEdges ''ctx''
     (executeWorkflow echo pipelineEdges ''ctx'' pipeline)
   = [(mkNode ''in'' INPUT ''Topic X'' COMPLETED)\<lparr>userPrompt := Some ''Topic X''\<rparr>,
      (mkNode ''writer'' AI_GENERATOR ''<Topic X>'' ERROR)\<lparr>errorMessage := Some ''quota''\<rparr>,
      mkNode ''coder'' AI_CODER ''<<Topic X>>'' IDLE,
      mkNode ''preview'' OUTPUT_PREVIEW ''<<Topic X>>'' IDLE]"
  by code_simp

section \<open>C3: quiescence within as many rounds as there are nodes\<close>

text \<open>
  C3. For every list of nodes and every list of connections (acyclic or not) the loop
  of \<^verbatim>\<open>processWorkflowQueue\<close> reaches a round that selects no node after at most
  \<open>length nodes\<close> rounds, and returns the state of that round. A round that selects
  a node has fewer Idle nodes after it than before it. Every selected node is a node of
  the current state with status \<open>IDLE\<close>, so a Completed, Error or Running node is
  never dispatched, and after the round every node with the id of a selected node is
  Completed or Error.
\<close>

theorem scheduler_quiescence:
  "(\<exists>k\<le>length nodes.
       nodesToRun conns (fst ((runRound p conns ctx ^^ k) (resolveInstant nodes, 0))) = []
     \<and> processWorkflowQueue p conns ctx nodes
         = fst ((runRound p conns ctx ^^ k) (resolveInstant nodes, 0)))
   \<and> (\<forall>cur k. nodesToRun conns cur \<noteq> [] \<longrightarrow>
         idleCount (fst (runRound p conns ctx (cur, k))) < idleCount cur)
   \<and> (\<forall>cur k. \<forall>n\<in>set (nodesToRun conns cur).
         n \<in> set cur \<and> status n = IDLE
       \<and> (\<forall>m\<in>set (fst (runRound p conns ctx (cur, k))).
             id_n m = id_n n \<longrightarrow> status m = COMPLETED \<or> status m = ERROR))"
proof (intro conjI allI impI ballI)
  from processRounds_funpow [of "(resolveInstant nodes, 0)" conns p ctx]
  obtain k where k: "k \<le> idleCount (resolveInstant nodes)"
    "nodesToRun conns (fst ((runRound p conns ctx ^^ k) (resolveInstant nodes, 0))) = []"
    "processRounds p conns ctx (resolveInstant nodes, 0)
      = (runRound p conns ctx ^^ k) (resolveInstant nodes, 0)"
    by auto
  have "k \<le> length nodes"
    using k(1) idleCount_le_length [of "resolveInstant nodes"]
    by (simp add: length_resolveInstant)
  with k(2,3) show "\<exists>k\<le>length nodes.
       nodesToRun conns (fst ((runRound p conns ctx ^^ k) (resolveInstant nodes, 0))) = []
     \<and> processWorkflowQueue p conns ctx nodes
         = fst ((runRound p conns ctx ^^ k) (resolveInstant nodes, 0))"
    unfolding processWorkflowQueue_def by auto
next
  fix cur :: "NodeData list" and k :: nat
  assume "nodesToRun conns cur \<noteq> []"
  then show "idleCount (fst (runRound p conns ctx (cur, k))) < idleCount cur"
    using runRound_idleCount_less [of conns "(cur, k)" p ctx] by simp
next
  fix cur :: "NodeData list" and k :: nat and n
  assume "n \<in> set (nodesToRun conns cur)"
  then show "n \<in> set cur" "status n = IDLE"
    using nodesToRun_idle by blast+
next
  fix cur :: "NodeData list" and k :: nat and n m
  assume "n \<in> set (nodesToRun conns cur)" "m \<in> set (fst (runRound p conns ctx (cur, k)))"
    "id_n m = id_n n"
  then show "status m = COMPLETED \<or> status m = ERROR"
    using runRound_settles [of n conns "(cur, k)" m p ctx] by simp
qed

theorem scheduler_quiescence_witness:
  "nodesToRun pipelineEdges (resolveInstant pipeline) \<noteq> []
   \<and> idleCount (fst (runRound echo pipelineEdges ''ctx'' (resolveInstant pipeline, 0)))
       < idleCount (resolveInstant pipeline)
   \<and> (\<exists>k\<le>4.
         nodesToRun pipelineEdges
           (fst ((runRound echo pipelineEdges ''ctx'' ^^ k) (resolveInstant pipeline, 0))) = []
       \<and> processWorkflowQueue echo pipelineEdges ''ctx'' pipeline
           = fst ((runRound echo pipelineEdges ''ctx'' ^^ k) (resolveInstant pipeline, 0)))"
proof -
  have h: "nodesToRun pipelineEdges (resolveInstant pipeline) \<noteq> []"
    by code_simp
  have l: "length pipeline = 4"
    by (simp add: pipeline_def)
  note t = scheduler_quiescence [of pipeline pipelineEdges echo "''ctx''"]
  from t [THEN conjunct2, THEN conjunct1, rule_format, OF h] t [THEN conjunct1] h l
  show ?thesis by simp
qed

section \<open>C4: the readiness evaluation\<close>

text \<open>
  C4. In every round of \<^verbatim>\<open>processWorkflowQueue\<close> (the state after the instant step
  and any number of rounds) the filter selects a node of the current state if and only if
  its status is \<open>IDLE\<close> and either its type is \<open>INPUT\<close>, \<open>IMAGE_NODE\<close> or
  \<open>AI_BRAINSTORM\<close>, or it has at least one incoming connection and the source of every
  incoming connection is found with status \<open>COMPLETED\<close>. A node of any other type with
  no incoming connection is selected in no state at all.
\<close>

theorem readiness_selection:
  assumes "cur = fst ((runRound p conns ctx ^^ k) (resolveInstant nodes, j))"
  shows "(n \<in> set (nodesToRun conns cur) \<longleftrightarrow>
            n \<in> set cur \<and> status n = IDLE
          \<and> (type_n n = INPUT \<or> type_n n = IMAGE_NODE \<or> type_n n = AI_BRAINSTORM
             \<or> (filter (\<lambda>c. targetId c = id_n n) conns \<noteq> []
                \<and> (\<forall>e\<in>set (filter (\<lambda>c. targetId c = id_n n) conns).
                      \<exists>s. find (\<lambda>m. id_n m = sourceId e) cur = Some s \<and> status s = COMPLETED))))
       \<and> (type_n n \<noteq> INPUT \<and> type_n n \<noteq> IMAGE_NODE \<and> type_n n \<noteq> AI_BRAINSTORM
            \<and> filter (\<lambda>c. targetId c = id_n n) conns = []
          \<longrightarrow> n \<notin> set (nodesToRun conns cur'))"
proof -
  have inv: "noIdleInstant cur"
    unfolding assms by (rule noIdleInstant_rounds)
  have "ready conns cur n \<longleftrightarrow>
          status n = IDLE
        \<and> (type_n n = INPUT \<or> type_n n = IMAGE_NODE \<or> type_n n = AI_BRAINSTORM
           \<or> (filter (\<lambda>c. targetId c = id_n n) conns \<noteq> []
              \<and> (\<forall>e\<in>set (filter (\<lambda>c. targetId c = id_n n) conns).
                    \<exists>s. find (\<lambda>m. id_n m = sourceId e) cur = Some s \<and> status s = COMPLETED)))"
    if "n \<in> set cur"
  proof (cases "type_n n = INPUT \<or> type_n n = IMAGE_NODE")
    case True
    with inv that have "status n \<noteq> IDLE" by (auto simp: noIdleInstant_def)
    then show ?thesis by (simp add: ready_def)
  next
    case False
    then show ?thesis
      by (simp add: ready_def Let_def list_all_iff sourceReady_iff)
  qed
  moreover have "\<not> ready conns cur' n"
    if "type_n n \<noteq> INPUT" "type_n n \<noteq> IMAGE_NODE" "type_n n \<noteq> AI_BRAINSTORM"
      "filter (\<lambda>c. targetId c = id_n n) conns = []"
    using that by (simp add: ready_def)
  ultimately show ?thesis
    by (auto simp: nodesToRun_def)
qed

theorem readiness_selection_witness:
  "mkNode ''writer'' AI_GENERATOR [] IDLE \<in> set (nodesToRun pipelineEdges (resolveInstant pipeline))
   \<and> status (mkNode ''writer'' AI_GENERATOR [] IDLE) = IDLE
   \<and> filter (\<lambda>c. targetId c = ''writer'') pipelineEdges \<noteq> []
   \<and> filter (\<lambda>c. targetId c = ''coder'') [] = []
   \<and> mkNode ''coder'' AI_CODER [] IDLE \<notin> set (nodesToRun [] pipeline)"
proof -
  have sel: "mkNode ''writer'' AI_GENERATOR [] IDLE
      \<in> set (nodesToRun pipelineEdges (resolveInstant pipeline))"
    by code_simp
  have st: "resolveInstant pipeline
      = fst ((runRound echo pipelineEdges ''ctx'' ^^ 0) (resolveInstant pipeline, 0))"
    by simp
  have ty: "type_n (mkNode ''writer'' AI_GENERATOR [] IDLE) = AI_GENERATOR"
    "id_n (mkNode ''writer'' AI_GENERATOR [] IDLE) = ''writer''"
    "type_n (mkNode ''coder'' AI_CODER [] IDLE) = AI_CODER"
    by (simp_all add: mkNode_def)
  from readiness_selection [OF st, of "mkNode ''writer'' AI_GENERATOR [] IDLE" pipeline,
      THEN conjunct1, THEN iffD1, OF sel] ty
  have "status (mkNode ''writer'' AI_GENERATOR [] IDLE) = IDLE
      \<and> filter (\<lambda>c. targetId c = ''writer'') pipelineEdges \<noteq> []"
    by simp
  moreover
  have st': "resolveInstant pipeline = fst ((runRound echo [] ''ctx'' ^^ 0) (resolveInstant pipeline, 0))"
    by simp
  from readiness_selection [OF st', of "mkNode ''coder'' AI_CODER [] IDLE" pipeline,
      THEN conjunct2] ty
  have "mkNode ''coder'' AI_CODER [] IDLE \<notin> set (nodesToRun [] pipeline)"
    by simp
  ultimately show ?thesis using sel by simp
qed

section \<open>C5: a provider failure stays with its node\<close>




section \<open>C6: a node behind a failed node\<close>

text \<open>
  C6. Take nodes with pairwise different ids and a node B that enters the run Idle, is
  of a type that takes input, and has exactly one incoming connection, from the id
  \<open>a\<close>. If the run ends with the node of id \<open>a\<close> in \<open>ERROR\<close>, then in the state
  of every round the node with B's id is B itself, unchanged and Idle, no round selects
  it, and the result of the run holds B unchanged: its status is \<open>IDLE\<close>, not
  \<open>ERROR\<close>.
\<close>

theorem blocked_behind_error:
  assumes "distinct (map id_n nodes)"
    and "B \<in> set nodes" and "status B = IDLE"
    and "type_n B \<noteq> INPUT" and "type_n B \<noteq> IMAGE_NODE" and "type_n B \<noteq> AI_BRAINSTORM"
    and "filter (\<lambda>c. targetId c = id_n B) conns = [e]" and "sourceId e = a"
    and "map_option status (find (\<lambda>n. id_n n = a) (processWorkflowQueue p conns ctx nodes))
           = Some ERROR"
  shows "(\<forall>k. find (\<lambda>n. id_n n = id_n B)
               (fst ((runRound p conns ctx ^^ k) (resolveInstant nodes, 0))) = Some B
            \<and> B \<notin> set (nodesToRun conns
                  (fst ((runRound p conns ctx ^^ k) (resolveInstant nodes, 0)))))
       \<and> find (\<lambda>n. id_n n = id_n B) (processWorkflowQueue p conns ctx nodes) = Some B"
proof -
  define st where "st k = (runRound p conns ctx ^^ k) (resolveInstant nodes, 0)" for k
  have d: "distinct (map id_n (fst (st k)))" for k
    using assms(1) by (simp add: st_def map_id_rounds map_id_resolveInstant)
  from processRounds_funpow [of "(resolveInstant nodes, 0)" conns p ctx]
  obtain K where K: "nodesToRun conns (fst (st K)) = []"
    "processWorkflowQueue p conns ctx nodes = fst (st K)"
    unfolding processWorkflowQueue_def st_def by auto
  from assms(9) K(2) obtain A where "find (\<lambda>n. id_n n = a) (fst (st K)) = Some A"
    and A3: "status A = ERROR"
    by auto
  from find_SomeD [OF this(1)] A3
  have A: "A \<in> set (fst (st K))" "id_n A = a" "status A = ERROR"
    by simp_all
  have "e \<in> set (filter (\<lambda>c. targetId c = id_n B) conns)"
    using assms(7) by simp
  then have e: "e \<in> set conns" "targetId e = id_n B"
    by simp_all
  have notc: "status m \<noteq> COMPLETED" if "m \<in> set (fst (st k))" "id_n m = a" for k m
  proof
    assume c: "status m = COMPLETED"
    then have "m \<in> set (fst ((runRound p conns ctx ^^ K) (st k)))"
      using settled_node_stays [OF d that(1)] by simp
    moreover have "(runRound p conns ctx ^^ K) (st k) = (runRound p conns ctx ^^ k) (st K)"
      unfolding st_def by (rule funpow_commute)
    moreover have "(runRound p conns ctx ^^ k) (st K) = st K"
      using K(1) by (rule runRound_quiescent)
    ultimately have "m \<in> set (fst (st K))" by simp
    from distinct_id_eq [OF d this A(1)] that(2) A(2) have "m = A" by simp
    with c A(3) show False by simp
  qed
  have B: "B \<in> set (fst (st k))" for k
  proof (induction k)
    case 0
    have "filter (\<lambda>n. id_n n \<in> {id_n B}) (resolveInstant nodes)
        = filter (\<lambda>n. id_n n \<in> {id_n B}) nodes"
    proof (rule resolveInstant_frame, intro ballI)
      fix x assume x: "x \<in> set (instantNodes nodes)"
      then have "x \<in> set nodes" "type_n x = INPUT \<or> type_n x = IMAGE_NODE"
        by (auto simp: instantNodes_def)
      with distinct_id_eq [OF assms(1) this(1) assms(2)] assms(4,5)
      show "id_n x \<notin> {id_n B}" by auto
    qed
    moreover have "B \<in> set (filter (\<lambda>n. id_n n \<in> {id_n B}) nodes)"
      using assms(2) by simp
    ultimately have "B \<in> set (filter (\<lambda>n. id_n n \<in> {id_n B}) (resolveInstant nodes))"
      by simp
    then show ?case by (simp add: st_def)
  next
    case (Suc k)
    have nr: "\<not> ready conns (fst (st k)) B"
      by (rule not_ready_source [OF e assms(6)]) (use notc assms(8) in blast)
    have "filter (\<lambda>n. id_n n \<in> {id_n B}) (fst (runRound p conns ctx (st k)))
        = filter (\<lambda>n. id_n n \<in> {id_n B}) (fst (st k))"
    proof (rule runRound_frame, intro ballI)
      fix n assume n: "n \<in> set (nodesToRun conns (fst (st k)))"
      then have "n \<in> set (fst (st k))" "ready conns (fst (st k)) n"
        by (simp_all add: nodesToRun_def)
      with distinct_id_eq [OF d this(1) Suc.IH] nr
      show "id_n n \<notin> {id_n B}" by auto
    qed
    moreover have "B \<in> set (filter (\<lambda>n. id_n n \<in> {id_n B}) (fst (st k)))"
      using Suc.IH by simp
    ultimately have "B \<in> set (filter (\<lambda>n. id_n n \<in> {id_n B}) (fst (runRound p conns ctx (st k))))"
      by simp
    then show ?case by (simp add: st_def)
  qed
  have nsel: "B \<notin> set (nodesToRun conns (fst (st k)))" for k
    using not_ready_source [OF e assms(6), of "fst (st k)"] notc [of _ k] assms(8)
    by (auto simp: nodesToRun_def)
  have f: "find (\<lambda>n. id_n n = id_n B) (fst (st k)) = Some B" for k
    by (rule find_distinct [OF d B])
  show ?thesis
    using f nsel K(2) unfolding st_def by simp
qed

theorem blocked_behind_error_witness:
  "distinct (map id_n pipeline)
   \<and> filter (\<lambda>c. targetId c = ''coder'') pipelineEdges = [mkEdge ''writer'' ''coder'']
   \<and> map (\<lambda>n. (id_n n, status n)) (processWorkflowQueue failing pipelineEdges ''ctx'' pipeline)
       = [(''in'', COMPLETED), (''writer'', ERROR), (''coder'', IDLE), (''preview'', IDLE)]
   \<and> find (\<lambda>n. id_n n = ''coder'') (processWorkflowQueue failing pipelineEdges ''ctx'' pipeline)
       = Some (mkNode ''coder'' AI_CODER [] IDLE)"
proof -
  let ?B = "mkNode ''coder'' AI_CODER [] IDLE"
  have d: "distinct (map id_n pipeline)"
    by (simp add: pipeline_def mkNode_def)
  have b: "?B \<in> set pipeline" "status ?B = IDLE" "type_n ?B \<noteq> INPUT"
    "type_n ?B \<noteq> IMAGE_NODE" "type_n ?B \<noteq> AI_BRAINSTORM" "id_n ?B = ''coder''"
    by (simp_all add: pipeline_def mkNode_def)
  have e: "filter (\<lambda>c. targetId c = id_n ?B) pipelineEdges = [mkEdge ''writer'' ''coder'']"
    "sourceId (mkEdge ''writer'' ''coder'') = ''writer''"
    by (simp_all add: pipelineEdges_def mkEdge_def mkNode_def)
  have r: "map (\<lambda>n. (id_n n, status n)) (processWorkflowQueue failing pipelineEdges ''ctx'' pipeline)
       = [(''in'', COMPLETED), (''writer'', ERROR), (''coder'', IDLE), (''preview'', IDLE)]"
    by code_simp
  have a: "map_option status (find (\<lambda>n. id_n n = ''writer'')
              (processWorkflowQueue failing pipelineEdges ''ctx'' pipeline)) = Some ERROR"
    by code_simp
  from blocked_behind_error [OF d b(1-5) e a, THEN conjunct2] d e(1) r b(6)
  show ?thesis by simp
qed

section \<open>C7: the instant step\<close>

text \<open>
  C7. On nodes with pairwise different ids, the first step of
  \<^verbatim>\<open>processWorkflowQueue\<close> turns every Idle \<open>INPUT\<close> node into a Completed node whose
  content is its \<open>userPrompt\<close> (empty when there is none) and every Idle \<open>IMAGE_NODE\<close>
  node into a Completed node whose content is its \<open>imageUrls\<close> joined with newlines
  (empty when there are none); nothing else of these nodes changes, so \<open>imageUrls\<close> stays
  as it was, and every other node is returned as it was. The connections are not an
  argument of the step.
\<close>

theorem source_immediacy:
  assumes "distinct (map id_n nodes)"
  shows "resolveInstant nodes =
     map (\<lambda>n. if status n = IDLE \<and> type_n n = INPUT
               then n\<lparr>status := COMPLETED,
                      content := (case userPrompt n of None \<Rightarrow> [] | Some t \<Rightarrow> t)\<rparr>
               else if status n = IDLE \<and> type_n n = IMAGE_NODE
               then n\<lparr>status := COMPLETED,
                      content := (case imageUrls n of None \<Rightarrow> [] | Some urls \<Rightarrow> join nl urls)\<rparr>
               else n) nodes"
  unfolding resolveInstant_distinct [OF assms]
  by (rule map_cong [OF refl])
     (auto simp: complete_def instantContent_def orElse_def split: option.splits)

theorem source_immediacy_witness:
  "distinct (map id_n sources)
   \<and> map (\<lambda>n. (status n, content n, imageUrls n)) (resolveInstant sources)
       = [(COMPLETED, ''Topic X'', None),
          (COMPLETED, ''u1'' @ nl @ ''u2'', Some [''u1'', ''u2'']),
          (IDLE, [], None)]"
proof -
  have d: "distinct (map id_n sources)"
    by (simp add: sources_def mkNode_def)
  from source_immediacy [OF d] d show ?thesis
    by (simp add: sources_def mkNode_def)
qed

section \<open>C8: the payload of a Generator, Optimizer or FactCheck node\<close>

text \<open>
  C8. For a node of type \<open>AI_GENERATOR\<close>, \<open>AI_OPTIMIZER\<close> or \<open>AI_FACT_CHECK\<close> the
  prompt is the payload above, and \<^verbatim>\<open>runNode\<close> hands exactly this payload to the
  provider as its contents: the outcome of running the node is decided by the provider's
  answer to it.
\<close>

theorem payload_order:
  assumes "type_n node = AI_GENERATOR \<or> type_n node = AI_OPTIMIZER \<or> type_n node = AI_FACT_CHECK"
  shows "prompt conns cur node = payload conns cur node
    \<and> runNode p conns ctx node (cur, k) =
        (let running = updateLocalAndState (id_n node)
                         (\<lambda>n. n\<lparr>status := RUNNING, errorMessage := None\<rparr>) cur
         in case p k (orElse (model node) ''gemini-2.5-flash'') (payload conns running node)
                   (combinedSystemInstruction (systemInstruction node) (Some ctx)) of
              Inr text \<Rightarrow>
                (updateLocalAndState (id_n node)
                   (\<lambda>n. n\<lparr>status := COMPLETED, content := orElse text []\<rparr>) running, Suc k)
            | Inl e \<Rightarrow>
                (updateLocalAndState (id_n node)
                   (\<lambda>n. n\<lparr>status := ERROR, errorMessage := Some (orElse e ''Unknown error'')\<rparr>)
                   running, Suc k))"
proof -
  have pr: "prompt conns c node = payload conns c node" for c
    using assms by (auto simp: prompt_def payload_def inputs_upstream Let_def)
  show ?thesis
    using assms
    by (auto simp: pr runNode_def generateText_def Let_def split: sum.splits)
qed

theorem payload_order_witness:
  "type_n (mkNode ''N'' AI_OPTIMIZER [] IDLE) = AI_OPTIMIZER
   \<and> prompt fanInEdges fanIn (mkNode ''N'' AI_OPTIMIZER [] IDLE)
       = ''first'' @ nl @ nl @ ''second'' @ nl @ nl @ ''Available Image URLs: u1, u2''"
proof -
  have t: "type_n (mkNode ''N'' AI_OPTIMIZER [] IDLE) = AI_OPTIMIZER"
    by (simp add: mkNode_def)
  have "payload fanInEdges fanIn (mkNode ''N'' AI_OPTIMIZER [] IDLE)
      = ''first'' @ nl @ nl @ ''second'' @ nl @ nl @ ''Available Image URLs: u1, u2''"
    by code_simp
  with payload_order [of "mkNode ''N'' AI_OPTIMIZER [] IDLE" fanInEdges fanIn, THEN conjunct1] t
  show ?thesis by simp
qed

section \<open>C9: the combined system directive\<close>

text \<open>
  C9, as the code has it. The directive is the global-context section followed by the
  role-instruction section, with the white space at the end of the whole removed: the
  template literal is trimmed, and the instruction stands last in it.
\<close>

theorem combined_directive:
  "combinedSystemInstruction instruction globalContext =
     globalContextSection globalContext @ trimEnd (roleInstructionSection instruction)"
proof -
  define r where "r = roleInstructionSection instruction"
  obtain r' where r: "r = CHR ''#'' # r'"
    by (simp add: r_def roleInstructionSection_def)
  then have rin: "CHR ''#'' \<in> set r"
    by simp
  have tail: "trimEnd (x @ r @ nl @ ''  '') = x @ trimEnd r" for x
  proof -
    have "trimEnd ((x @ r) @ (nl @ ''  '')) = trimEnd (x @ r)"
      by (rule trimEnd_append_space) (simp add: nl_def isWhiteSpace_def)
    also have "\<dots> = x @ trimEnd r"
      using rin hash_not_space by (rule trimEnd_append_text)
    finally show ?thesis by simp
  qed
  have drop_r: "dropWhile isWhiteSpace (r @ z) = r @ z" for z
    unfolding r by (simp add: hash_not_space)
  show ?thesis
  proof (cases "truthy globalContext")
    case False
    then have g: "globalContextSection globalContext = []"
      by (auto simp: globalContextSection_def truthy_def split: option.splits)
    have "combinedSystemInstruction instruction globalContext = trim (nl @ nl @ r @ nl @ ''  '')"
      using False
      by (auto simp: combinedSystemInstruction_def r_def roleInstructionSection_def truthy_def
          split: option.splits)
    also have "\<dots> = trimEnd (r @ nl @ ''  '')"
      by (simp add: trim_def nl_def nl_space drop_r)
    also have "\<dots> = trimEnd r"
      using tail [of "[]"] by simp
    finally show ?thesis by (simp add: g r_def)
  next
    case True
    then obtain g where g: "globalContext = Some g" "g \<noteq> []"
      by (auto simp: truthy_def split: option.splits)
    let ?h = "''### GLOBAL CONTEXT / COMPANY VOICE:'' @ nl @ g @ nl @ nl @ nl"
    have "combinedSystemInstruction instruction globalContext = trim (nl @ ?h @ r @ nl @ ''  '')"
      using g by (simp add: combinedSystemInstruction_def r_def roleInstructionSection_def)
    also have "\<dots> = trimEnd (?h @ r @ nl @ ''  '')"
      by (simp add: trim_def nl_def nl_space hash_not_space)
    also have "\<dots> = ?h @ trimEnd r"
      using tail [of ?h] by simp
    finally show ?thesis using g by (simp add: globalContextSection_def r_def)
  qed
qed

text \<open>
  C9 as stated fails where the present instruction ends in white space: the directive is
  not the two sections put together.
\<close>

theorem combined_directive_counterexample:
  "combinedSystemInstruction (Some ''Be brief. '') (Some ''Acme'')
     \<noteq> globalContextSection (Some ''Acme'') @ roleInstructionSection (Some ''Be brief. '')
   \<and> combinedSystemInstruction (Some ''Be brief. '') (Some ''Acme'')
     = ''### GLOBAL CONTEXT / COMPANY VOICE:'' @ nl @ ''Acme'' @ nl @ nl @ nl
       @ ''### ROLE INSTRUCTION:'' @ nl @ ''Be brief.''"
  by code_simp

section \<open>C10: termination on a graph with a cycle\<close>

text \<open>
  C10, as the code has it. For every list of nodes and every list of connections, with
  or without a cycle, the loop of \<^verbatim>\<open>processWorkflowQueue\<close> returns: after at most
  \<open>length nodes\<close> rounds a round selects no node, and the state of that round is the
  result. When the nodes on a cycle enter the run Idle and are of the types that take
  input (neither \<open>INPUT\<close>, \<open>IMAGE_NODE\<close> nor \<open>AI_BRAINSTORM\<close>, the types to which the
  editor attaches no incoming connection), no round ever selects one of them, and the
  run returns them as they were, with status \<open>IDLE\<close>. A full run, which resets every
  node first, therefore leaves the input-taking nodes of every cycle as the reset made
  them, with status \<open>IDLE\<close>, whatever their status was before.
\<close>

theorem cyclic_graph_terminates:
  "(\<exists>k\<le>length nodes.
       nodesToRun conns (fst ((runRound p conns ctx ^^ k) (resolveInstant nodes, 0))) = []
     \<and> processWorkflowQueue p conns ctx nodes
         = fst ((runRound p conns ctx ^^ k) (resolveInstant nodes, 0)))
   \<and> (isCycle conns cyc
      \<and> (\<forall>n\<in>set nodes. id_n n \<in> set cyc \<longrightarrow>
            status n = IDLE \<and> type_n n \<noteq> INPUT \<and> type_n n \<noteq> IMAGE_NODE
          \<and> type_n n \<noteq> AI_BRAINSTORM)
      \<longrightarrow> (\<forall>k. \<forall>n\<in>set (nodesToRun conns
                       (fst ((runRound p conns ctx ^^ k) (resolveInstant nodes, 0)))).
               id_n n \<notin> set cyc)
        \<and> filter (\<lambda>n. id_n n \<in> set cyc) (processWorkflowQueue p conns ctx nodes)
            = filter (\<lambda>n. id_n n \<in> set cyc) nodes
        \<and> (\<forall>n\<in>set (processWorkflowQueue p conns ctx nodes).
              id_n n \<in> set cyc \<longrightarrow> status n = IDLE))
   \<and> (isCycle conns cyc
      \<and> (\<forall>n\<in>set nodes. id_n n \<in> set cyc \<longrightarrow>
            type_n n \<noteq> INPUT \<and> type_n n \<noteq> IMAGE_NODE \<and> type_n n \<noteq> AI_BRAINSTORM)
      \<longrightarrow> filter (\<lambda>n. id_n n \<in> set cyc) (executeWorkflow p conns ctx nodes)
            = filter (\<lambda>n. id_n n \<in> set cyc) (resetNodes nodes)
        \<and> (\<forall>n\<in>set (executeWorkflow p conns ctx nodes).
              id_n n \<in> set cyc \<longrightarrow> status n = IDLE))"
proof (intro conjI impI)
  from processRounds_funpow [of "(resolveInstant nodes, 0)" conns p ctx]
  obtain k where k: "k \<le> idleCount (resolveInstant nodes)"
    "nodesToRun conns (fst ((runRound p conns ctx ^^ k) (resolveInstant nodes, 0))) = []"
    "processRounds p conns ctx (resolveInstant nodes, 0)
      = (runRound p conns ctx ^^ k) (resolveInstant nodes, 0)"
    by auto
  have "k \<le> length nodes"
    using k(1) idleCount_le_length [of "resolveInstant nodes"]
    by (simp add: length_resolveInstant)
  with k(2,3) show "\<exists>k\<le>length nodes.
       nodesToRun conns (fst ((runRound p conns ctx ^^ k) (resolveInstant nodes, 0))) = []
     \<and> processWorkflowQueue p conns ctx nodes
         = fst ((runRound p conns ctx ^^ k) (resolveInstant nodes, 0))"
    unfolding processWorkflowQueue_def by auto
next
  assume a: "isCycle conns cyc
      \<and> (\<forall>n\<in>set nodes. id_n n \<in> set cyc \<longrightarrow>
            status n = IDLE \<and> type_n n \<noteq> INPUT \<and> type_n n \<noteq> IMAGE_NODE
          \<and> type_n n \<noteq> AI_BRAINSTORM)"
  then have c: "isCycle conns cyc"
    and h: "\<forall>n\<in>set nodes. id_n n \<in> set cyc \<longrightarrow>
            status n = IDLE \<and> type_n n \<noteq> INPUT \<and> type_n n \<noteq> IMAGE_NODE
          \<and> type_n n \<noteq> AI_BRAINSTORM"
    by blast+
  have st: "stuck conns (set cyc) (fst (resolveInstant nodes, 0::nat))"
    using stuck_cycle(1) [OF c h] by simp
  have fr: "filter (\<lambda>n. id_n n \<in> set cyc) (resolveInstant nodes)
      = filter (\<lambda>n. id_n n \<in> set cyc) nodes"
    by (rule stuck_cycle(2) [OF c h])
  show "\<forall>k. \<forall>n\<in>set (nodesToRun conns
                       (fst ((runRound p conns ctx ^^ k) (resolveInstant nodes, 0)))).
               id_n n \<notin> set cyc"
  proof (intro allI ballI)
    fix k n
    assume n: "n \<in> set (nodesToRun conns
                       (fst ((runRound p conns ctx ^^ k) (resolveInstant nodes, 0))))"
    have "stuck conns (set cyc) (fst ((runRound p conns ctx ^^ k) (resolveInstant nodes, 0)))"
      using stuck_rounds [OF st, where p = p and ctx = ctx and k = k] by simp
    from stuck_not_selected [OF this n] show "id_n n \<notin> set cyc" .
  qed
  show eq: "filter (\<lambda>n. id_n n \<in> set cyc) (processWorkflowQueue p conns ctx nodes)
            = filter (\<lambda>n. id_n n \<in> set cyc) nodes"
    unfolding processWorkflowQueue_def
    using stuck_processRounds [OF st, where p = p and ctx = ctx] fr by simp
  show "\<forall>n\<in>set (processWorkflowQueue p conns ctx nodes). id_n n \<in> set cyc \<longrightarrow> status n = IDLE"
  proof (intro ballI impI)
    fix n assume "n \<in> set (processWorkflowQueue p conns ctx nodes)" "id_n n \<in> set cyc"
    then have "n \<in> set (filter (\<lambda>n. id_n n \<in> set cyc) (processWorkflowQueue p conns ctx nodes))"
      by simp
    with eq have "n \<in> set nodes" "id_n n \<in> set cyc" by simp_all
    with h show "status n = IDLE" by blast
  qed
next
  assume a: "isCycle conns cyc
      \<and> (\<forall>n\<in>set nodes. id_n n \<in> set cyc \<longrightarrow>
            type_n n \<noteq> INPUT \<and> type_n n \<noteq> IMAGE_NODE \<and> type_n n \<noteq> AI_BRAINSTORM)"
  then have c: "isCycle conns cyc"
    and h: "\<forall>n\<in>set nodes. id_n n \<in> set cyc \<longrightarrow>
            type_n n \<noteq> INPUT \<and> type_n n \<noteq> IMAGE_NODE \<and> type_n n \<noteq> AI_BRAINSTORM"
    by blast+
  have h': "\<forall>n\<in>set (resetNodes nodes). id_n n \<in> set cyc \<longrightarrow>
            status n = IDLE \<and> type_n n \<noteq> INPUT \<and> type_n n \<noteq> IMAGE_NODE
          \<and> type_n n \<noteq> AI_BRAINSTORM"
    using h by (auto simp: resetNodes_def)
  show eq: "filter (\<lambda>n. id_n n \<in> set cyc) (executeWorkflow p conns ctx nodes)
            = filter (\<lambda>n. id_n n \<in> set cyc) (resetNodes nodes)"
    unfolding executeWorkflow_def by (rule cycle_nodes_kept [OF c h'])
  show "\<forall>n\<in>set (executeWorkflow p conns ctx nodes). id_n n \<in> set cyc \<longrightarrow> status n = IDLE"
  proof (intro ballI impI)
    fix n assume "n \<in> set (executeWorkflow p conns ctx nodes)" "id_n n \<in> set cyc"
    then have "n \<in> set (filter (\<lambda>n. id_n n \<in> set cyc) (executeWorkflow p conns ctx nodes))"
      by simp
    with eq have "n \<in> set (resetNodes nodes)" "id_n n \<in> set cyc" by simp_all
    with h' show "status n = IDLE" by blast
  qed
qed

theorem cyclic_graph_terminates_witness:
  "isCycle loopedEdges [''a'', ''b'']
   \<and> map status looped = [IDLE, IDLE, IDLE, IDLE]
   \<and> filter (\<lambda>n. id_n n \<in> set [''a'', ''b'']) (processWorkflowQueue echo loopedEdges ''ctx'' looped)
       = [mkNode ''a'' AI_GENERATOR [] IDLE, mkNode ''b'' AI_OPTIMIZER [] IDLE]
   \<and> isCycle ringEdited [''a'', ''b'']
   \<and> filter (\<lambda>n. id_n n \<in> set [''a'', ''b''])
         (executeWorkflow echo ringEdited ''ctx'' (executeWorkflow echo ringEdges ''ctx'' ring))
       = [mkNode ''a'' AI_GENERATOR ''<Topic X>'' IDLE, mkNode ''b'' AI_OPTIMIZER [] IDLE]"
proof -
  have c: "isCycle loopedEdges [''a'', ''b'']"
    by (simp add: isCycle_def loopedEdges_def mkEdge_def)
  have h: "\<forall>n\<in>set looped. id_n n \<in> set [''a'', ''b''] \<longrightarrow>
            status n = IDLE \<and> type_n n \<noteq> INPUT \<and> type_n n \<noteq> IMAGE_NODE
          \<and> type_n n \<noteq> AI_BRAINSTORM"
    by (simp add: looped_def mkNode_def)
  have f: "filter (\<lambda>n. id_n n \<in> set [''a'', ''b'']) looped
      = [mkNode ''a'' AI_GENERATOR [] IDLE, mkNode ''b'' AI_OPTIMIZER [] IDLE]"
    by (simp add: looped_def mkNode_def)
  have s: "map status looped = [IDLE, IDLE, IDLE, IDLE]"
    by (simp add: looped_def mkNode_def)
  have r1: "filter (\<lambda>n. id_n n \<in> set [''a'', ''b''])
         (processWorkflowQueue echo loopedEdges ''ctx'' looped)
       = [mkNode ''a'' AI_GENERATOR [] IDLE, mkNode ''b'' AI_OPTIMIZER [] IDLE]"
    using cyclic_graph_terminates [of looped loopedEdges echo "''ctx''" "[''a'', ''b'']",
      THEN conjunct2, THEN conjunct1, rule_format, OF conjI [OF c h],
      THEN conjunct2, THEN conjunct1] f
    by simp
  have c2: "isCycle ringEdited [''a'', ''b'']"
    by (simp add: isCycle_def ringEdited_def mkEdge_def)
  have run1: "executeWorkflow echo ringEdges ''ctx'' ring
      = [(mkNode ''in'' INPUT ''Topic X'' COMPLETED)\<lparr>userPrompt := Some ''Topic X''\<rparr>,
         mkNode ''a'' AI_GENERATOR ''<Topic X>'' COMPLETED,
         mkNode ''b'' AI_OPTIMIZER [] IDLE,
         (mkNode ''u'' INPUT ''other'' COMPLETED)\<lparr>userPrompt := Some ''other''\<rparr>]"
    by code_simp
  have h2: "\<forall>n\<in>set (executeWorkflow echo ringEdges ''ctx'' ring).
      id_n n \<in> set [''a'', ''b''] \<longrightarrow>
        type_n n \<noteq> INPUT \<and> type_n n \<noteq> IMAGE_NODE \<and> type_n n \<noteq> AI_BRAINSTORM"
    unfolding run1 by (simp add: mkNode_def)
  have f2: "filter (\<lambda>n. id_n n \<in> set [''a'', ''b''])
              (resetNodes (executeWorkflow echo ringEdges ''ctx'' ring))
      = [mkNode ''a'' AI_GENERATOR ''<Topic X>'' IDLE, mkNode ''b'' AI_OPTIMIZER [] IDLE]"
    unfolding run1 by (simp add: resetNodes_def mkNode_def)
  have r2: "filter (\<lambda>n. id_n n \<in> set [''a'', ''b''])
         (executeWorkflow echo ringEdited ''ctx'' (executeWorkflow echo ringEdges ''ctx'' ring))
       = [mkNode ''a'' AI_GENERATOR ''<Topic X>'' IDLE, mkNode ''b'' AI_OPTIMIZER [] IDLE]"
    using cyclic_graph_terminates [of "executeWorkflow echo ringEdges ''ctx'' ring" ringEdited
      echo "''ctx''" "[''a'', ''b'']",
      THEN conjunct2, THEN conjunct2, rule_format, OF conjI [OF c2 h2], THEN conjunct1] f2
    by simp
  show ?thesis
    using c s r1 c2 r2 by simp
qed

text \<open>
  C10 as stated says that the nodes of a cycle are never eligible. Run \<open>in \<rightarrow> a\<close>, then
  connect \<open>a \<rightarrow> b\<close> and \<open>b \<rightarrow> a\<close> and retry the unrelated node \<open>u\<close>: the retry resets
  only \<open>u\<close>, so \<open>a\<close> is still Completed from the first run, and \<open>b\<close>, which is Idle and
  on the cycle, has its only source Completed, is dispatched and completes.
\<close>

theorem cycle_node_runs_counterexample:
  "isCycle ringEdited [''a'', ''b'']
   \<and> map id_n (nodesToRun ringEdited (resolveInstant
         (updatedNodes ringEdited ''u'' (executeWorkflow echo ringEdges ''ctx'' ring))))
       = [''b'']
   \<and> handleRetryNode echo ringEdited ''ctx'' False ''u''
         (executeWorkflow echo ringEdges ''ctx'' ring)
       = [(mkNode ''in'' INPUT ''Topic X'' COMPLETED)\<lparr>userPrompt := Some ''Topic X''\<rparr>,
          mkNode ''a'' AI_GENERATOR ''<Topic X>'' COMPLETED,
          mkNode ''b'' AI_OPTIMIZER ''<<Topic X>>'' COMPLETED,
          (mkNode ''u'' INPUT ''other'' COMPLETED)\<lparr>userPrompt := Some ''other''\<rparr>]"
  by code_simp

end
